theory Spec2Isabelle
  imports Main "HOL-Library.Word"
begin

unbundle bit_operations_syntax

section \<open>Machine types and faults\<close>

text \<open>
  The code runs on a 32-bit ARM target: \<open>int\<close> has 32 bits, \<open>char\<close> is an unsigned byte, and
  every operand narrower than \<open>int\<close> is promoted to \<open>int\<close> before arithmetic. Fields keep their
  declared width as words; arithmetic on them is written out in \<open>int\<close> (\<open>uint\<close>, \<open>sint\<close>) and
  narrowed again (\<open>word_of_int\<close>) where the code stores the result.
\<close>

type_synonym uint8_t = "8 word"
type_synonym int8_t = "8 word"
type_synonym uint16_t = "16 word"
type_synonym uint32_t = "32 word"

text \<open>
  An access outside the object it addresses has no defined result in C. The model stops at the
  first such access and reports it, with the index as the code computed it.
  \<open>WriteWhileBusy\<close> is not a fault of C: it monitors the rule that the pixel buffer is not
  written while the busy flag is set (see \<open>modify_buffer\<close>).
\<close>

datatype fault =
    GlyphIndex int
  | BitmapIndex nat
  | BufferIndex int
  | StringIndex int
  | TextIndex nat
  | WriteWhileBusy

text \<open>Sequencing of steps that may fault.\<close>

definition seq :: "fault + 'a \<Rightarrow> ('a \<Rightarrow> fault + 'b) \<Rightarrow> fault + 'b" where
  "seq m f = (case m of Inl e \<Rightarrow> Inl e | Inr x \<Rightarrow> f x)"

section \<open>Fonts (font/Font.h)\<close>

record Glyph =
  offset :: uint16_t
  width :: uint8_t
  height :: uint8_t
  advance :: uint8_t
  xStart :: int8_t
  yStart :: int8_t

record Font =
  bitmaps :: "uint8_t list"
  glyphs :: "Glyph list"

text \<open>
  \<open>getGlyph\<close> returns \<open>&glyphs[c - 0x20]\<close>. The operand \<open>c\<close> is a \<open>uint8_t\<close>, promoted to
  \<open>int\<close>, so the index is an \<open>int\<close> and is negative for \<open>c < 0x20\<close>. Every caller reads
  through the pointer at once, so an index outside the table is reported here.
\<close>

definition glyph_index :: "uint8_t \<Rightarrow> int" where
  "glyph_index c = uint c - 0x20"

definition getGlyph :: "Font \<Rightarrow> uint8_t \<Rightarrow> fault + Glyph" where
  "getGlyph font c =
     (let i = glyph_index c in
      if 0 \<le> i \<and> i < int (length (glyphs font)) then Inr (glyphs font ! nat i)
      else Inl (GlyphIndex i))"

text \<open>
  The three font tables \<open>fontDefault\<close>, \<open>fontCondensed\<close> and \<open>fontCondensedSmall\<close> are
  declared \<open>extern\<close> in font/Font.h; their data is not part of the sources at hand, so they are
  parameters of the model. \<open>print\<close> holds a pointer to one of the three.
\<close>

record Fonts =
  fontDefault :: Font
  fontCondensed :: Font
  fontCondensedSmall :: Font

section \<open>C strings\<close>

text \<open>
  A \<open>const char *\<close> points at element \<open>start\<close> of an array of bytes \<open>chars\<close>. \<open>s[i]\<close> is
  defined as long as it stays inside the array, also for a negative \<open>i\<close>.
\<close>

record cstring =
  chars :: "uint8_t list"
  start :: nat

definition char_at :: "cstring \<Rightarrow> int \<Rightarrow> fault + uint8_t" where
  "char_at s i =
     (let j = int (start s) + i in
      if 0 \<le> j \<and> j < int (length (chars s)) then Inr (chars s ! nat j)
      else Inl (StringIndex i))"

fun nul_index :: "uint8_t list \<Rightarrow> nat option" where
  "nul_index [] = None"
| "nul_index (c # cs) = (if c = 0 then Some 0 else map_option Suc (nul_index cs))"

definition strlen :: "cstring \<Rightarrow> fault + nat" where
  "strlen s =
     (case nul_index (drop (start s) (chars s)) of
        None \<Rightarrow> Inl (StringIndex (int (length (chars s)) - int (start s)))
      | Some n \<Rightarrow> Inr n)"

text \<open>A string stored in an array of its own, as a string literal is.\<close>

definition literal :: "uint8_t list \<Rightarrow> cstring" where
  "literal cs = \<lparr>chars = cs @ [0], start = 0\<rparr>"

text \<open>\<open>string_at s cs\<close>: the pointer \<open>s\<close> addresses the NUL-terminated string \<open>cs\<close>.\<close>

definition string_at :: "cstring \<Rightarrow> uint8_t list \<Rightarrow> bool" where
  "string_at s cs \<longleftrightarrow>
     0 \<notin> set cs \<and> take (length cs + 1) (drop (start s) (chars s)) = cs @ [0]"

text \<open>The printable range of the fonts: \<open>0x20 .. 0x7e\<close>, 95 glyphs.\<close>

definition printable :: "uint8_t \<Rightarrow> bool" where
  "printable c \<longleftrightarrow> 0x20 \<le> c \<and> c \<le> 0x7e"

definition glyph_advance :: "Font \<Rightarrow> uint8_t \<Rightarrow> nat" where
  "glyph_advance font c = unat (advance (glyphs font ! nat (glyph_index c)))"

section \<open>Text width (V2Display.cpp, getTextWidth)\<close>

text \<open>
  The loop \<open>for (uint8_t i = 0; i < len; i++)\<close> runs over the indices \<open>0 ..< len\<close>; the
  recursion carries \<open>width\<close> (as \<open>w\<close>), \<open>replaced\<close> and the filled part of \<open>text\<close> (\<open>textLen\<close> is its
  length, \<open>text\<close> has room for 32 characters). In the branch for \<open>c > 0x7f\<close> the code assigns
  \<open>c = '#'\<close>, sets \<open>replaced\<close> and then executes \<open>continue\<close>, so neither \<open>text\<close> nor
  \<open>width\<close> changes there. The comparisons are unsigned; with a signed \<open>char\<close> the bytes above
  \<open>0x7f\<close> would be negative and be skipped by \<open>c < 20\<close>, with the same result.
\<close>

fun getTextWidth_loop ::
  "cstring \<Rightarrow> Font \<Rightarrow> nat list \<Rightarrow> uint16_t \<Rightarrow> bool \<Rightarrow> uint8_t list \<Rightarrow> fault + (uint16_t \<times> uint8_t list)"
where
  "getTextWidth_loop s font [] w replaced text = Inr (w, text)"
| "getTextWidth_loop s font (i # rest) w replaced text =
     (case char_at s (int i) of
        Inl e \<Rightarrow> Inl e
      | Inr c \<Rightarrow>
          if c = 0 then Inr (w, text)
          else if c < 20 then getTextWidth_loop s font rest w replaced text
          else if c > 0x7f then
            (if replaced then getTextWidth_loop s font rest w replaced text
             else getTextWidth_loop s font rest w True text)
          else if 32 \<le> length text then Inl (TextIndex (length text))
          else
            (case getGlyph font c of
               Inl e \<Rightarrow> Inl e
             | Inr g \<Rightarrow> getTextWidth_loop s font rest (w + ucast (advance g)) False (text @ [c])))"

definition getTextWidth :: "cstring \<Rightarrow> uint8_t \<Rightarrow> Font \<Rightarrow> fault + (uint16_t \<times> uint8_t list)" where
  "getTextWidth s len font = getTextWidth_loop s font [0 ..< unat len] 0 False []"

section \<open>The display (V2Display.h, class Display)\<close>

datatype Justify = Left | Center | Right

text \<open>
  The members of \<open>Display\<close> that the code reads back. The nested structs \<open>_hardware\<close>,
  \<open>_pixels\<close> and \<open>_area\<close> are flattened, a field \<open>_area.width\<close> becoming \<open>area_width\<close>.
  \<open>buffer\<close> is the array that \<open>begin\<close> allocates, \<open>_hardware.width * row_size\<close> cells of 16
  bits. The pins and the bytes shifted out on the bus are outputs that the code never reads
  back; they are not recorded. What the bus answers is an input: \<open>polls\<close> counts the calls of
  \<open>_spi->isBusy()\<close> made so far, and the answers are a parameter of the model, the answer to
  call number \<open>n\<close> being \<open>spi n\<close>. \<open>yield()\<close> is taken not to touch the display.
\<close>

record Display =
  hardware_width :: uint16_t
  hardware_height :: uint16_t
  hardware_y_centered :: bool
  pixels_width :: uint16_t
  pixels_height :: uint16_t
  pixels_x_start :: uint16_t
  pixels_y_start :: uint16_t
  area_justify :: Justify
  area_x :: uint16_t
  area_row :: uint8_t
  area_width :: uint16_t
  area_foreground :: uint16_t
  area_background :: uint16_t
  area_cursor :: uint16_t
  busy :: bool
  buffer :: "uint16_t list"
  polls :: nat

type_synonym spi = "nat \<Rightarrow> bool"

definition row_size :: nat where
  "row_size = 60"

definition baseline :: uint16_t where
  "baseline = of_nat (row_size * 3 div 4)"

definition bswap16 :: "uint16_t \<Rightarrow> uint16_t" where
  "bswap16 v = push_bit 8 v OR drop_bit 8 v"

text \<open>
  A call may return a display, stop at a fault, or never return (\<open>None\<close>): the waiting loops
  have no bound.
\<close>

type_synonym 'a outcome = "(fault + 'a) option"

definition pseq :: "'a outcome \<Rightarrow> ('a \<Rightarrow> 'b outcome) \<Rightarrow> 'b outcome" where
  "pseq m f = (case m of None \<Rightarrow> None | Some (Inl e) \<Rightarrow> Some (Inl e) | Some (Inr x) \<Rightarrow> f x)"

lemma pseq_mono [partial_function_mono]:
  assumes mf: "mono_option B" and mg: "\<And>y. mono_option (\<lambda>f. C y f)"
  shows "mono_option (\<lambda>f. pseq (B f) (\<lambda>y. C y f))"
proof -
  have eq: "\<And>m g. pseq m g = Option.bind m (\<lambda>r. case r of Inl e \<Rightarrow> Some (Inl e) | Inr x \<Rightarrow> g x)"
    by (simp add: pseq_def split: option.splits sum.splits)
  have "mono_option (\<lambda>f. Option.bind (B f) (\<lambda>r. case r of Inl e \<Rightarrow> Some (Inl e) | Inr x \<Rightarrow> C x f))"
  proof (rule bind_mono[OF mf])
    fix r
    show "mono_option (\<lambda>f. case r of Inl e \<Rightarrow> Some (Inl e) | Inr x \<Rightarrow> C x f)"
      by (cases r) (simp_all add: mg option.const_mono)
  qed
  then show ?thesis by (simp only: eq)
qed

subsection \<open>Writing the pixel buffer\<close>

text \<open>\<open>buffer[i] = v\<close>, with the index as an \<open>int\<close>.\<close>

definition buffer_set :: "int \<Rightarrow> uint16_t \<Rightarrow> uint16_t list \<Rightarrow> fault + uint16_t list" where
  "buffer_set i v buf =
     (if 0 \<le> i \<and> i < int (length buf) then Inr (buf[nat i := v]) else Inl (BufferIndex i))"

text \<open>
  Every block of the code that writes \<open>_buffer\<close> goes through \<open>modify_buffer\<close> (or
  \<open>modify_buffer_p\<close>, for a loop that may not end), which hands the buffer to the writer and
  stores the result. Both carry the monitor: entering such a block with the busy flag set is
  reported as \<open>WriteWhileBusy\<close>. The code has no such test; that the report never occurs is a
  theorem below.
\<close>

definition modify_buffer ::
  "Display \<Rightarrow> (uint16_t list \<Rightarrow> fault + ('a \<times> uint16_t list)) \<Rightarrow> fault + ('a \<times> Display)" where
  "modify_buffer d f =
     (if busy d then Inl WriteWhileBusy
      else case f (buffer d) of Inl e \<Rightarrow> Inl e | Inr (r, buf) \<Rightarrow> Inr (r, d\<lparr>buffer := buf\<rparr>))"

definition modify_buffer_p ::
  "Display \<Rightarrow> (uint16_t list \<Rightarrow> (uint16_t list) outcome) \<Rightarrow> Display outcome" where
  "modify_buffer_p d f =
     (if busy d then Some (Inl WriteWhileBusy)
      else case f (buffer d) of
             None \<Rightarrow> None
           | Some (Inl e) \<Rightarrow> Some (Inl e)
           | Some (Inr buf) \<Rightarrow> Some (Inr (d\<lparr>buffer := buf\<rparr>)))"

text \<open>A loop \<open>for (i = 0; i < n; i++)\<close> whose counter cannot wrap, over a state that may fault.\<close>

fun for_each :: "('i \<Rightarrow> 's \<Rightarrow> fault + 's) \<Rightarrow> 'i list \<Rightarrow> 's \<Rightarrow> fault + 's" where
  "for_each body [] s = Inr s"
| "for_each body (i # rest) s = (case body i s of Inl e \<Rightarrow> Inl e | Inr s' \<Rightarrow> for_each body rest s')"

subsection \<open>The bus (prepareWrite, write, finishWrite, writeCommand, loop)\<close>

text \<open>\<open>while (_spi->isBusy()) yield();\<close>\<close>

partial_function (option) await_spi :: "spi \<Rightarrow> Display \<Rightarrow> Display outcome" where
  "await_spi spi d =
     (if spi (polls d) then await_spi spi (d\<lparr>polls := Suc (polls d)\<rparr>)
      else Some (Inr (d\<lparr>polls := Suc (polls d)\<rparr>)))"

definition finishWrite :: "spi \<Rightarrow> Display \<Rightarrow> Display outcome" where
  "finishWrite spi d = await_spi spi d"

definition writeCommand :: "spi \<Rightarrow> Display \<Rightarrow> Display outcome" where
  "writeCommand spi d = await_spi spi d"

text \<open>
  \<open>write(buffer, len)\<close> waits for the bus and shifts out the first \<open>len\<close> bytes of the pixel
  buffer, two per cell; it is only ever called on \<open>_buffer\<close>, hence its name here.
\<close>

definition write_buffer :: "spi \<Rightarrow> uint16_t \<Rightarrow> Display \<Rightarrow> Display outcome" where
  "write_buffer spi len d =
     pseq (await_spi spi d) (\<lambda>d.
       if 2 * length (buffer d) < unat len then Some (Inl (BufferIndex (int (length (buffer d)))))
       else Some (Inr d))"

definition loop :: "spi \<Rightarrow> Display \<Rightarrow> Display outcome" where
  "loop spi d =
     (if \<not> busy d then Some (Inr d)
      else if spi (polls d) then Some (Inr (d\<lparr>polls := Suc (polls d)\<rparr>))
      else pseq (finishWrite spi (d\<lparr>polls := Suc (polls d)\<rparr>)) (\<lambda>d. Some (Inr (d\<lparr>busy := False\<rparr>))))"

text \<open>\<open>while (_busy) { yield(); loop(); }\<close>\<close>

partial_function (option) await_idle :: "spi \<Rightarrow> Display \<Rightarrow> Display outcome" where
  "await_idle spi d = (if busy d then pseq (loop spi d) (\<lambda>d'. await_idle spi d') else Some (Inr d))"

definition prepareWrite :: "spi \<Rightarrow> Display \<Rightarrow> Display outcome" where
  "prepareWrite spi d = await_idle spi d"

subsection \<open>The controller (class ST7789)\<close>

text \<open>
  \<open>writeSetWindow\<close> and \<open>writeReset\<close> send commands whose bytes are computed from their
  arguments and from \<open>_pixels\<close>; of these calls the model keeps the waiting for the bus.
\<close>

definition writeSetWindow ::
  "spi \<Rightarrow> uint16_t \<Rightarrow> uint16_t \<Rightarrow> uint16_t \<Rightarrow> uint16_t \<Rightarrow> Display \<Rightarrow> Display outcome" where
  "writeSetWindow spi x y w h d =
     pseq (writeCommand spi d) (\<lambda>d. pseq (writeCommand spi d) (\<lambda>d. writeCommand spi d))"

definition writeReset :: "spi \<Rightarrow> Display \<Rightarrow> Display outcome" where
  "writeReset spi d =
     pseq (writeCommand spi d) (\<lambda>d. pseq (writeCommand spi d) (\<lambda>d. pseq (writeCommand spi d) (\<lambda>d.
     pseq (writeCommand spi d) (\<lambda>d. pseq (writeCommand spi d) (\<lambda>d. pseq (writeCommand spi d) (\<lambda>d.
     writeCommand spi d))))))"

text \<open>Division of C, which truncates towards zero.\<close>

definition c_div :: "int \<Rightarrow> int \<Rightarrow> int" where
  "c_div a b = sgn a * sgn b * (\<bar>a\<bar> div \<bar>b\<bar>)"

definition writeSetOrientation :: "spi \<Rightarrow> uint16_t \<Rightarrow> Display \<Rightarrow> Display outcome" where
  "writeSetOrientation spi angle d =
     (let hw = uint (hardware_width d); hh = uint (hardware_height d); yc = hardware_y_centered d;
          d' =
            (if angle = 0 then
               d\<lparr>pixels_width := hardware_width d, pixels_height := hardware_height d,
                 pixels_x_start := word_of_int (c_div (240 - hw) 2),
                 pixels_y_start := word_of_int (if yc then c_div (320 - hh) 2 else 0)\<rparr>
             else if angle = 90 then
               d\<lparr>pixels_width := hardware_height d, pixels_height := hardware_width d,
                 pixels_x_start := word_of_int (if yc then c_div (320 - hh) 2 else 0),
                 pixels_y_start := word_of_int (c_div ((240 - hw) + 1) 2)\<rparr>
             else if angle = 180 then
               d\<lparr>pixels_width := hardware_width d, pixels_height := hardware_height d,
                 pixels_x_start := word_of_int (c_div ((240 - hw) + 1) 2),
                 pixels_y_start := word_of_int (if yc then c_div (320 - hh) 2 else 320 - hh)\<rparr>
             else if angle = 270 then
               d\<lparr>pixels_width := hardware_height d, pixels_height := hardware_width d,
                 pixels_x_start := word_of_int (if yc then c_div (320 - hh) 2 else 320 - hh),
                 pixels_y_start := word_of_int (c_div (240 - hw) 2)\<rparr>
             else d)
      in writeCommand spi d')"

definition enable :: "spi \<Rightarrow> bool \<Rightarrow> Display \<Rightarrow> Display outcome" where
  "enable spi on d = pseq (prepareWrite spi d) (\<lambda>d. pseq (writeCommand spi d) (finishWrite spi))"

definition sleep :: "spi \<Rightarrow> bool \<Rightarrow> Display \<Rightarrow> Display outcome" where
  "sleep spi on d = pseq (prepareWrite spi d) (\<lambda>d. pseq (writeCommand spi d) (finishWrite spi))"

subsection \<open>Filling a rectangle (writeFillRectangle, fillRectangle)\<close>

text \<open>
  \<open>for (uint16_t i = 0; i < len; i++) _buffer[i] = __builtin_bswap16(color);\<close> The counter
  has 16 bits and \<open>len\<close> has 32: for a \<open>len\<close> above 65535 the counter wraps and the loop does
  not end.
\<close>

partial_function (option) fill_cells ::
  "uint16_t \<Rightarrow> nat \<Rightarrow> uint16_t \<Rightarrow> uint16_t list \<Rightarrow> (uint16_t list) outcome" where
  "fill_cells i len v buf =
     (if unat i < len then
        (case buffer_set (uint i) v buf of
           Inl e \<Rightarrow> Some (Inl e)
         | Inr buf' \<Rightarrow> fill_cells (i + 1) len v buf')
      else Some (Inr buf))"

text \<open>
  \<open>while (n_pixels > 0) { count = min(n_pixels, len); write(_buffer, count * sizeof(uint16_t));
  n_pixels -= count; }\<close> Both \<open>count\<close> and the length that \<open>write\<close> takes have 16 bits.
\<close>

partial_function (option) write_bursts :: "spi \<Rightarrow> nat \<Rightarrow> nat \<Rightarrow> Display \<Rightarrow> Display outcome" where
  "write_bursts spi n_pixels len d =
     (if 0 < n_pixels then
        (let count = (of_nat (min n_pixels len) :: uint16_t) in
         pseq (write_buffer spi (of_nat (unat count * 2)) d)
           (\<lambda>d'. write_bursts spi (n_pixels - unat count) len d'))
      else Some (Inr d))"

text \<open>
  \<open>n_pixels = width * height\<close> is a product of two promoted \<open>uint16_t\<close>, stored in 32 bits;
  the model takes the low 32 bits of the product.
\<close>

definition writeFillRectangle ::
  "spi \<Rightarrow> uint16_t \<Rightarrow> uint16_t \<Rightarrow> uint16_t \<Rightarrow> uint16_t \<Rightarrow> uint16_t \<Rightarrow> Display \<Rightarrow> Display outcome" where
  "writeFillRectangle spi x y w h color d =
     pseq (writeSetWindow spi x y w h d) (\<lambda>d.
       let n_pixels = (unat w * unat h) mod 2 ^ 32;
           len = min n_pixels (unat (hardware_width d) * row_size)
       in pseq (modify_buffer_p d (fill_cells 0 len (bswap16 color)))
            (write_bursts spi n_pixels len))"

definition fillRectangle ::
  "spi \<Rightarrow> uint16_t \<Rightarrow> uint16_t \<Rightarrow> uint16_t \<Rightarrow> uint16_t \<Rightarrow> uint16_t \<Rightarrow> Display \<Rightarrow> Display outcome" where
  "fillRectangle spi x y w h color d =
     pseq (await_idle spi d) (\<lambda>d.
     pseq (prepareWrite spi d) (\<lambda>d.
     pseq (writeFillRectangle spi x y w h color d) (\<lambda>d.
     Some (Inr (d\<lparr>busy := True\<rparr>)))))"

definition fillScreen :: "spi \<Rightarrow> uint16_t \<Rightarrow> Display \<Rightarrow> Display outcome" where
  "fillScreen spi color d = fillRectangle spi 0 0 (pixels_width d) (pixels_height d) color d"

definition reset :: "spi \<Rightarrow> uint16_t \<Rightarrow> uint16_t \<Rightarrow> Display \<Rightarrow> Display outcome" where
  "reset spi orientation color d =
     pseq (prepareWrite spi (d\<lparr>busy := False\<rparr>)) (\<lambda>d.
     pseq (writeReset spi d) (\<lambda>d.
     pseq (writeSetOrientation spi orientation d) (\<lambda>d.
     pseq (writeFillRectangle spi 0 0 (pixels_width d) (pixels_height d) color d) (\<lambda>d.
     finishWrite spi d))))"

definition setArea ::
  "uint16_t \<Rightarrow> uint8_t \<Rightarrow> uint16_t \<Rightarrow> Justify \<Rightarrow> uint16_t \<Rightarrow> uint16_t \<Rightarrow> Display \<Rightarrow> Display" where
  "setArea x row w justify foreground background d =
     d\<lparr>area_x := x, area_row := row, area_width := w, area_justify := justify,
       area_foreground := foreground, area_background := background, area_cursor := 0\<rparr>"

definition setColor :: "uint16_t \<Rightarrow> Display \<Rightarrow> Display" where
  "setColor color d = d\<lparr>area_foreground := color\<rparr>"

subsection \<open>The offscreen buffer (initializeBuffer, flushBuffer)\<close>

definition initializeBuffer :: "Display \<Rightarrow> fault + Display" where
  "initializeBuffer d =
     seq (modify_buffer d (\<lambda>buf.
            seq (for_each (\<lambda>y. for_each (\<lambda>x.
                    buffer_set (int y * uint (area_width d) + int x) (bswap16 (area_background d)))
                  [0 ..< unat (area_width d)])
                [0 ..< row_size] buf)
              (\<lambda>buf'. Inr ((), buf'))))
       (\<lambda>(u, d'). Inr d')"

definition flushBuffer :: "spi \<Rightarrow> Display \<Rightarrow> Display outcome" where
  "flushBuffer spi d =
     pseq (prepareWrite spi d) (\<lambda>d.
     pseq (writeSetWindow spi (area_x d) (word_of_int (uint (area_row d) * int row_size))
             (area_width d) (of_nat row_size) d) (\<lambda>d.
     pseq (write_buffer spi (of_nat (unat (area_width d) * row_size * 2)) d) (\<lambda>d.
     Some (Inr (d\<lparr>busy := True\<rparr>)))))"

subsection \<open>Drawing a glyph (renderChar, drawChar)\<close>

text \<open>
  The body of the inner loop of \<open>renderChar\<close>, on the loop's variables \<open>o\<close>, \<open>map\<close>, \<open>bit\<close>
  (here \<open>off\<close>, \<open>bits\<close>, \<open>nbit\<close>) and the buffer. The parameter \<open>width\<close> of \<open>renderChar\<close>
  (here \<open>wd\<close>) is a \<open>uint8_t\<close>; \<open>bx\<close> and \<open>by\<close> are computed in \<open>int\<close> and stored in 16 bits.
\<close>

definition renderChar_pixel ::
  "Font \<Rightarrow> uint8_t \<Rightarrow> uint16_t \<Rightarrow> uint16_t \<Rightarrow> uint16_t \<Rightarrow> Glyph \<Rightarrow> nat \<Rightarrow> nat \<Rightarrow>
   uint16_t \<times> uint8_t \<times> uint8_t \<times> uint16_t list \<Rightarrow> fault + (uint16_t \<times> uint8_t \<times> uint8_t \<times> uint16_t list)" where
  "renderChar_pixel font wd x y color glyph iy ix st =
     (case st of (off, bits, nbit, buf) \<Rightarrow>
        seq (if nbit AND 0x07 = 0 then
               (if unat off < length (bitmaps font) then Inr (bitmaps font ! unat off, off + 1)
                else Inl (BitmapIndex (unat off)))
             else Inr (bits, off))
          (\<lambda>(bits, off).
        seq (if bits AND 0x80 \<noteq> 0 then
               (let b_x = (word_of_int (uint x + sint (xStart glyph) + int ix) :: uint16_t);
                    b_y = (word_of_int (uint y + sint (yStart glyph) + int iy) :: uint16_t)
                in buffer_set (uint wd * uint b_y + uint b_x) (bswap16 color) buf)
             else Inr buf)
          (\<lambda>buf'. Inr (off, push_bit 1 bits, nbit + 1, buf'))))"

definition renderChar ::
  "uint16_t list \<Rightarrow> Font \<Rightarrow> uint8_t \<Rightarrow> uint16_t \<Rightarrow> uint16_t \<Rightarrow> uint8_t \<Rightarrow> uint16_t \<Rightarrow>
   fault + (uint16_t \<times> uint16_t list)" where
  "renderChar buf font wd x y c color =
     seq (getGlyph font c) (\<lambda>glyph.
     seq (for_each (\<lambda>iy. for_each (\<lambda>ix. renderChar_pixel font wd x y color glyph iy ix)
                  [0 ..< unat (width glyph)])
            [0 ..< unat (height glyph)] (offset glyph, 0, 0, buf))
       (\<lambda>(off, bits, nbit, buf'). Inr (ucast (advance glyph), buf')))"

definition drawChar :: "spi \<Rightarrow> Fonts \<Rightarrow> uint8_t \<Rightarrow> Display \<Rightarrow> Display outcome" where
  "drawChar spi fonts c d =
     pseq (await_idle spi d) (\<lambda>d. Some (
       seq (if area_cursor d = 0 then initializeBuffer d else Inr d) (\<lambda>d.
       seq (modify_buffer d (\<lambda>buf.
              renderChar buf (fontDefault fonts) (ucast (area_width d)) (area_cursor d) baseline c
                (area_foreground d)))
         (\<lambda>(adv, d). Inr (d\<lparr>area_cursor := area_cursor d + adv\<rparr>)))))"

subsection \<open>Printing a line (print)\<close>

text \<open>\<open>while (s[len - 1] == ' ') len--;\<close> with \<open>len - 1\<close> computed in \<open>int\<close> and \<open>len\<close> a byte.\<close>

partial_function (option) strip_trailing :: "cstring \<Rightarrow> uint8_t \<Rightarrow> uint8_t outcome" where
  "strip_trailing s len =
     (case char_at s (uint len - 1) of
        Inl e \<Rightarrow> Some (Inl e)
      | Inr c \<Rightarrow> if c = 0x20 then strip_trailing s (len - 1) else Some (Inr len))"

text \<open>
  Lines 242 to 251: the length of the text to print, \<open>None\<close> where \<open>print\<close> returns at
  \<open>len == 0\<close>. \<open>strlen\<close> is stored in a byte.
\<close>

definition text_length :: "cstring \<Rightarrow> (uint8_t option) outcome" where
  "text_length s =
     (case strlen s of
        Inl e \<Rightarrow> Some (Inl e)
      | Inr n \<Rightarrow>
          (let len = (of_nat n :: uint8_t) in
           if len = 0 then Some (Inr None)
           else pseq (strip_trailing s (if 32 < len then 32 else len)) (\<lambda>len. Some (Inr (Some len)))))"

text \<open>The local \<open>const Font *font\<close> points to one of the three fonts.\<close>

datatype font_ptr = Default | Condensed | CondensedSmall

definition deref :: "Fonts \<Rightarrow> font_ptr \<Rightarrow> Font" where
  "deref fonts p =
     (case p of Default \<Rightarrow> fontDefault fonts | Condensed \<Rightarrow> fontCondensed fonts
      | CondensedSmall \<Rightarrow> fontCondensedSmall fonts)"

text \<open>
  Lines 253 to 272: the font, the text width (cut down to the width of the area by the last
  test) and the filtered text.
\<close>

definition fit_font ::
  "Fonts \<Rightarrow> cstring \<Rightarrow> uint8_t \<Rightarrow> uint16_t \<Rightarrow> fault + (font_ptr \<times> uint16_t \<times> uint8_t list)" where
  "fit_font fonts s len aw =
     seq (getTextWidth s len (fontDefault fonts)) (\<lambda>(textWidth, text).
     seq (if aw < textWidth then
            seq (getTextWidth s len (fontCondensed fonts))
              (\<lambda>(textWidth, text). Inr (Condensed, textWidth, text))
          else Inr (Default, textWidth, text)) (\<lambda>(font, textWidth, text).
     seq (if aw < textWidth then
            seq (getTextWidth s len (fontCondensedSmall fonts))
              (\<lambda>(textWidth, text). Inr (CondensedSmall, textWidth, text))
          else Inr (font, textWidth, text)) (\<lambda>(font, textWidth, text).
     Inr (font, if aw < textWidth then aw else textWidth, text))))"

text \<open>Lines 274 to 286: the \<open>switch\<close> on \<open>_area.justify\<close>, in \<open>int\<close>, stored in 16 bits.\<close>

definition justify_cursor :: "Justify \<Rightarrow> uint16_t \<Rightarrow> uint16_t \<Rightarrow> uint16_t" where
  "justify_cursor j aw textWidth =
     (case j of
        Left \<Rightarrow> 0
      | Center \<Rightarrow> word_of_int (c_div (uint aw - uint textWidth) 2)
      | Right \<Rightarrow> word_of_int (uint aw - uint textWidth))"

text \<open>Lines 290 to 298: the loop over \<open>text\<close>, with its \<open>break\<close>.\<close>

fun render_text :: "Font \<Rightarrow> uint8_t list \<Rightarrow> Display \<Rightarrow> fault + Display" where
  "render_text font [] d = Inr d"
| "render_text font (c # rest) d =
     (case getGlyph font c of
        Inl e \<Rightarrow> Inl e
      | Inr glyph \<Rightarrow>
          (let adv = (ucast (advance glyph) :: uint16_t) in
           if uint (area_width d) < uint (area_cursor d) + uint adv then Inr d
           else
             (case modify_buffer d (\<lambda>buf.
                     renderChar buf font (ucast (area_width d)) (area_cursor d) baseline c
                       (area_foreground d)) of
                Inl e \<Rightarrow> Inl e
              | Inr (r, d') \<Rightarrow> render_text font rest (d'\<lparr>area_cursor := area_cursor d' + adv\<rparr>))))"

text \<open>\<open>print(const char s[] = NULL)\<close>: \<open>None\<close> is the null pointer.\<close>

definition print :: "spi \<Rightarrow> Fonts \<Rightarrow> cstring option \<Rightarrow> Display \<Rightarrow> Display outcome" where
  "print spi fonts sp d =
     pseq (await_idle spi d) (\<lambda>d.
       case sp of
         None \<Rightarrow>
           pseq (Some (if area_cursor d = 0 then initializeBuffer d else Inr d)) (flushBuffer spi)
       | Some s \<Rightarrow>
           pseq (text_length s) (\<lambda>len.
             case len of
               None \<Rightarrow> Some (Inr d)
             | Some len \<Rightarrow>
                 pseq (Some (
                   seq (fit_font fonts s len (area_width d)) (\<lambda>(font, textWidth, text).
                   seq (initializeBuffer
                          (d\<lparr>area_cursor := justify_cursor (area_justify d) (area_width d) textWidth\<rparr>))
                     (\<lambda>d.
                   seq (render_text (deref fonts font) text d) (\<lambda>d.
                   Inr (d\<lparr>area_cursor := 0\<rparr>))))))
                   (flushBuffer spi)))"

text \<open>
  \<open>print(float f, uint8_t digits)\<close> formats the number into a string of at most 31 characters
  and calls \<open>print\<close> on it; the formatting is not modelled.
\<close>

subsection \<open>Sequences of calls\<close>

datatype call =
    Reset uint16_t uint16_t
  | Loop
  | FillRectangle uint16_t uint16_t uint16_t uint16_t uint16_t
  | FillScreen uint16_t
  | SetArea uint16_t uint8_t uint16_t Justify uint16_t uint16_t
  | SetColor uint16_t
  | DrawChar uint8_t
  | Print "cstring option"
  | Enable bool
  | Sleep bool

fun exec :: "spi \<Rightarrow> Fonts \<Rightarrow> call \<Rightarrow> Display \<Rightarrow> Display outcome" where
  "exec spi fonts (Reset orientation color) d = reset spi orientation color d"
| "exec spi fonts Loop d = loop spi d"
| "exec spi fonts (FillRectangle x y w h color) d = fillRectangle spi x y w h color d"
| "exec spi fonts (FillScreen color) d = fillScreen spi color d"
| "exec spi fonts (SetArea x row w justify foreground background) d =
     Some (Inr (setArea x row w justify foreground background d))"
| "exec spi fonts (SetColor color) d = Some (Inr (setColor color d))"
| "exec spi fonts (DrawChar c) d = drawChar spi fonts c d"
| "exec spi fonts (Print sp) d = print spi fonts sp d"
| "exec spi fonts (Enable on) d = enable spi on d"
| "exec spi fonts (Sleep on) d = sleep spi on d"

fun run :: "spi \<Rightarrow> Fonts \<Rightarrow> call list \<Rightarrow> Display \<Rightarrow> Display outcome" where
  "run spi fonts [] d = Some (Inr d)"
| "run spi fonts (c # rest) d = pseq (exec spi fonts c d) (run spi fonts rest)"

section \<open>Concrete inputs\<close>

text \<open>A font table with the 95 glyphs of the printable range, each with an advance of 10.\<close>

definition demo_glyph :: Glyph where
  "demo_glyph = \<lparr>offset = 0, width = 0, height = 0, advance = 10, xStart = 0, yStart = 0\<rparr>"

definition demo_font :: Font where
  "demo_font = \<lparr>bitmaps = [], glyphs = replicate 95 demo_glyph\<rparr>"

text \<open>Three font tables for the printable range with advances of 10, 8 and 6.\<close>

definition narrow_font :: Font where
  "narrow_font = \<lparr>bitmaps = [], glyphs = replicate 95 (demo_glyph\<lparr>advance := 8\<rparr>)\<rparr>"

definition small_font :: Font where
  "small_font = \<lparr>bitmaps = [], glyphs = replicate 95 (demo_glyph\<lparr>advance := 6\<rparr>)\<rparr>"

definition demo_fonts :: Fonts where
  "demo_fonts = \<lparr>fontDefault = demo_font, fontCondensed = narrow_font, fontCondensedSmall = small_font\<rparr>"

text \<open>A bus that is never busy, and a display one pixel wide.\<close>

definition idle_bus :: spi where
  "idle_bus = (\<lambda>n. False)"

definition demo_display :: Display where
  "demo_display =
     \<lparr>hardware_width = 1, hardware_height = 8, hardware_y_centered = False,
      pixels_width = 1, pixels_height = 8, pixels_x_start = 0, pixels_y_start = 0,
      area_justify = Left, area_x = 0, area_row = 0, area_width = 1,
      area_foreground = 0xFFFF, area_background = 0, area_cursor = 0,
      busy = False, buffer = replicate 60 0xAAAA, polls = 0\<rparr>"

text \<open>A string of one space that has a space before it in its array.\<close>

definition padded :: cstring where
  "padded = \<lparr>chars = [0x20, 0x20, 0], start = 1\<rparr>"

text \<open>A bus that answers busy to the first two polls.\<close>

definition slow_bus :: spi where
  "slow_bus = (\<lambda>n. n < 2)"

text \<open>
  A font with ink: a blank space glyph, and for every other character a glyph of two set pixels
  in one row, advancing by 3. A display with a text area of 30 columns.
\<close>

definition ink_glyph :: Glyph where
  "ink_glyph = \<lparr>offset = 0, width = 2, height = 1, advance = 3, xStart = 0, yStart = 0\<rparr>"

definition ink_font :: Font where
  "ink_font = \<lparr>bitmaps = [0xC0], glyphs = demo_glyph # replicate 94 ink_glyph\<rparr>"

definition ink_fonts :: Fonts where
  "ink_fonts = \<lparr>fontDefault = ink_font, fontCondensed = narrow_font, fontCondensedSmall = small_font\<rparr>"

definition wide_display :: Display where
  "wide_display = demo_display\<lparr>hardware_width := 30, area_width := 30, buffer := replicate 1800 0xAAAA\<rparr>"

section \<open>Notions used in the statements\<close>

text \<open>\<open>bus_only d d'\<close>: the two displays differ at most in the count of bus polls.\<close>

definition bus_only :: "Display \<Rightarrow> Display \<Rightarrow> bool" where
  "bus_only d d' \<longleftrightarrow> (\<exists>n. d' = d\<lparr>polls := n\<rparr>)"

text \<open>The number of cells that \<open>writeFillRectangle\<close> fills: its local \<open>len\<close>.\<close>

definition fill_length :: "uint16_t \<Rightarrow> uint16_t \<Rightarrow> Display \<Rightarrow> nat" where
  "fill_length w h d = min ((unat w * unat h) mod 2 ^ 32) (unat (hardware_width d) * row_size)"

text \<open>
  The escalation of fonts as the specification words it: measure with the default font; if
  that is wider than the area, measure with the condensed font; if that is still wider, measure
  with the small condensed font and go on with it whatever its width. The result is the font
  and the width measured with it.
\<close>

definition font_escalation ::
  "Fonts \<Rightarrow> cstring \<Rightarrow> uint8_t \<Rightarrow> uint16_t \<Rightarrow> fault + (font_ptr \<times> uint16_t \<times> uint8_t list)" where
  "font_escalation fonts s len aw =
     seq (getTextWidth s len (fontDefault fonts)) (\<lambda>(w, t).
       if w \<le> aw then Inr (Default, w, t)
       else seq (getTextWidth s len (fontCondensed fonts)) (\<lambda>(w, t).
         if w \<le> aw then Inr (Condensed, w, t)
         else seq (getTextWidth s len (fontCondensedSmall fonts)) (\<lambda>(w, t).
           Inr (CondensedSmall, w, t))))"

text \<open>
  The glyphs that fit, as the specification words it: going through the text with the cursor,
  stop at the first glyph for which cursor + advance exceeds the width of the area.
\<close>

fun fitting :: "Font \<Rightarrow> nat \<Rightarrow> nat \<Rightarrow> uint8_t list \<Rightarrow> uint8_t list" where
  "fitting font aw cur [] = []"
| "fitting font aw cur (c # rest) =
     (if aw < cur + glyph_advance font c then []
      else c # fitting font aw (cur + glyph_advance font c) rest)"

text \<open>
  Rendering every glyph of a text at the cursor and advancing the cursor, with no test
  against the width of the area.
\<close>

fun draw_glyphs :: "Font \<Rightarrow> uint8_t list \<Rightarrow> Display \<Rightarrow> fault + Display" where
  "draw_glyphs font [] d = Inr d"
| "draw_glyphs font (c # rest) d =
     (case modify_buffer d (\<lambda>buf.
             renderChar buf font (ucast (area_width d)) (area_cursor d) baseline c
               (area_foreground d)) of
        Inl e \<Rightarrow> Inl e
      | Inr (adv, d') \<Rightarrow> draw_glyphs font rest (d'\<lparr>area_cursor := area_cursor d' + adv\<rparr>))"

text \<open>\<open>drawChars\<close>: one call of \<open>drawChar\<close> for each character, in order.\<close>

fun drawChars :: "spi \<Rightarrow> Fonts \<Rightarrow> uint8_t list \<Rightarrow> Display \<Rightarrow> Display outcome" where
  "drawChars spi fonts [] d = Some (Inr d)"
| "drawChars spi fonts (c # rest) d = pseq (drawChar spi fonts c d) (drawChars spi fonts rest)"

text \<open>A glyph without pixels: the loops of \<open>renderChar\<close> over it do not run.\<close>

definition blank :: "Glyph \<Rightarrow> bool" where
  "blank g \<longleftrightarrow> width g = 0 \<or> height g = 0"

section \<open>C strings: reading a string through its pointer\<close>

lemma string_at_nth:
  assumes "string_at s cs" "k \<le> length cs"
  shows "start s + k < length (chars s) \<and> chars s ! (start s + k) = (cs @ [0]) ! k"
proof -
  let ?d = "drop (start s) (chars s)"
  from assms(1) have t: "take (length cs + 1) ?d = cs @ [0]"
    by (simp add: string_at_def)
  have "length (take (length cs + 1) ?d) = length (cs @ [0])"
    by (simp only: t)
  then have len: "length cs + 1 \<le> length ?d"
    by simp
  have "(cs @ [0]) ! k = take (length cs + 1) ?d ! k"
    by (simp only: t)
  also have "\<dots> = ?d ! k"
    using assms(2) by simp
  also have "\<dots> = chars s ! (start s + k)"
    using len assms(2) by simp
  finally have "chars s ! (start s + k) = (cs @ [0]) ! k" by simp
  moreover have "start s + k < length (chars s)" using len assms(2) by simp
  ultimately show ?thesis by simp
qed

lemma string_at_char:
  assumes "string_at s cs" "k < length cs"
  shows "char_at s (int k) = Inr (cs ! k)"
  using string_at_nth[OF assms(1), of k] assms(2)
  by (simp add: char_at_def nth_append nat_add_distrib)

lemma string_at_nul:
  assumes "string_at s cs"
  shows "char_at s (int (length cs)) = Inr 0"
  using string_at_nth[OF assms(1), of "length cs"]
  by (simp add: char_at_def nat_add_distrib)

lemma nul_index_append: "0 \<notin> set cs \<Longrightarrow> nul_index (cs @ 0 # rest) = Some (length cs)"
  by (induction cs) auto

lemma string_at_strlen:
  assumes "string_at s cs"
  shows "strlen s = Inr (length cs)"
proof -
  let ?d = "drop (start s) (chars s)"
  from assms have t: "take (length cs + 1) ?d = cs @ [0]" and z: "0 \<notin> set cs"
    by (simp_all add: string_at_def)
  have "?d = take (length cs + 1) ?d @ drop (length cs + 1) ?d"
    by (simp only: append_take_drop_id)
  then have "?d = cs @ 0 # drop (length cs + 1) ?d"
    by (simp only: t append_Cons append_Nil append_assoc)
  then have "nul_index ?d = nul_index (cs @ 0 # drop (length cs + 1) ?d)"
    by simp
  then have "nul_index ?d = Some (length cs)"
    by (simp only: nul_index_append[OF z])
  then show ?thesis by (simp add: strlen_def)
qed

lemma string_at_literal: "0 \<notin> set cs \<Longrightarrow> string_at (literal cs) cs"
  by (simp add: string_at_def literal_def)

section \<open>Measuring text\<close>

lemma printable_unat: "printable c \<longleftrightarrow> 32 \<le> unat c \<and> unat c \<le> 126"
  by (simp add: printable_def word_le_nat_alt)

lemma printable_facts:
  assumes "printable c"
  shows "c \<noteq> 0" "\<not> c < 20" "\<not> 0x7f < c" "0 \<le> glyph_index c" "glyph_index c < 95"
        "nat (glyph_index c) = unat c - 32"
proof -
  from assms have a: "32 \<le> unat c" "unat c \<le> 126"
    by (simp_all add: printable_unat)
  show "c \<noteq> 0" using a by auto
  show "\<not> c < 20" using a by (simp add: word_less_nat_alt)
  show "\<not> 0x7f < c" using a by (simp add: word_less_nat_alt)
  have u: "uint c = int (unat c)" by simp
  show "0 \<le> glyph_index c" unfolding glyph_index_def using a u by linarith
  show "glyph_index c < 95" unfolding glyph_index_def using a u by linarith
  show "nat (glyph_index c) = unat c - 32" unfolding glyph_index_def using a u by linarith
qed

lemma getGlyph_printable:
  "printable c \<Longrightarrow> 95 \<le> length (glyphs font) \<Longrightarrow> getGlyph font c = Inr (glyphs font ! nat (glyph_index c))"
  using printable_facts(4,5)[of c] by (simp add: getGlyph_def Let_def)

declare getTextWidth_loop.simps(2) [simp del]

lemma loop_printable_prefix:
  assumes "95 \<le> length (glyphs font)"
  shows "(\<forall>k<length cs. char_at s (int (n + k)) = Inr (cs ! k)) \<Longrightarrow> list_all printable cs \<Longrightarrow>
     length kept + length cs \<le> 32 \<Longrightarrow>
     getTextWidth_loop s font ([n ..< n + length cs] @ rest) w r kept =
     getTextWidth_loop s font rest (w + of_nat (\<Sum>c\<leftarrow>cs. glyph_advance font c))
        (if cs = [] then r else False) (kept @ cs)"
proof (induction cs arbitrary: n w r kept)
  case Nil
  then show ?case by simp
next
  case (Cons c cs)
  have c0: "char_at s (int n) = Inr c" using Cons.prems(1)[rule_format, of 0] by simp
  have pc: "printable c" using Cons.prems(2) by simp
  have rest_chars: "\<forall>k<length cs. char_at s (int (Suc n + k)) = Inr (cs ! k)"
  proof (intro allI impI)
    fix k assume "k < length cs"
    then show "char_at s (int (Suc n + k)) = Inr (cs ! k)"
      using Cons.prems(1)[rule_format, of "Suc k"] by simp
  qed
  have upt: "[n ..< n + length (c # cs)] = n # [Suc n ..< Suc n + length cs]"
    by (simp add: upt_conv_Cons del: upt_Suc)
  let ?a = "ucast (advance (glyphs font ! nat (glyph_index c))) :: 16 word"
  have "getTextWidth_loop s font ([n ..< n + length (c # cs)] @ rest) w r kept =
        getTextWidth_loop s font (n # ([Suc n ..< Suc n + length cs] @ rest)) w r kept"
    by (simp only: upt append_Cons)
  also have "\<dots> = getTextWidth_loop s font ([Suc n ..< Suc n + length cs] @ rest) (w + ?a) False (kept @ [c])"
    using c0 printable_facts(1,2,3)[OF pc] getGlyph_printable[OF pc assms] Cons.prems(3)
    by (simp add: getTextWidth_loop.simps(2))
  also have "\<dots> = getTextWidth_loop s font rest (w + ?a + of_nat (\<Sum>c\<leftarrow>cs. glyph_advance font c))
        False ((kept @ [c]) @ cs)"
    using Cons.IH[OF rest_chars, of "kept @ [c]" "w + ?a" False] Cons.prems(2,3) by simp
  also have "w + ?a + of_nat (\<Sum>c\<leftarrow>cs. glyph_advance font c)
      = w + of_nat (\<Sum>c\<leftarrow>c # cs. glyph_advance font c)"
    by (simp add: glyph_advance_def)
  finally show ?case by simp
qed


lemma loop_high_bytes:
  "(\<forall>k<length cs. char_at s (int (n + k)) = Inr (cs ! k)) \<Longrightarrow> list_all (\<lambda>c. 0x7f < c) cs \<Longrightarrow>
     getTextWidth_loop s font ([n ..< n + length cs] @ rest) w r kept =
     getTextWidth_loop s font rest w (if cs = [] then r else True) kept"
proof (induction cs arbitrary: n r)
  case Nil
  then show ?case by simp
next
  case (Cons c cs)
  have c0: "char_at s (int n) = Inr c" using Cons.prems(1)[rule_format, of 0] by simp
  have hi: "0x7f < c" using Cons.prems(2) by simp
  then have u: "127 < unat c" by (simp add: word_less_nat_alt)
  have nz: "c \<noteq> 0" using u by auto
  have n20: "\<not> c < 20" using u by (simp add: word_less_nat_alt)
  have rest_chars: "\<forall>k<length cs. char_at s (int (Suc n + k)) = Inr (cs ! k)"
  proof (intro allI impI)
    fix k assume "k < length cs"
    then show "char_at s (int (Suc n + k)) = Inr (cs ! k)"
      using Cons.prems(1)[rule_format, of "Suc k"] by simp
  qed
  have upt: "[n ..< n + length (c # cs)] = n # [Suc n ..< Suc n + length cs]"
    by (simp add: upt_conv_Cons del: upt_Suc)
  have "getTextWidth_loop s font ([n ..< n + length (c # cs)] @ rest) w r kept =
        getTextWidth_loop s font (n # ([Suc n ..< Suc n + length cs] @ rest)) w r kept"
    by (simp only: upt append_Cons)
  also have "\<dots> = getTextWidth_loop s font ([Suc n ..< Suc n + length cs] @ rest) w True kept"
    using c0 hi nz n20 by (simp add: getTextWidth_loop.simps(2))
  also have "\<dots> = getTextWidth_loop s font rest w True kept"
    using Cons.IH[OF rest_chars, of True] Cons.prems(2) by simp
  finally show ?case by simp
qed

lemma sum_advance_bound: "(\<Sum>c\<leftarrow>cs. glyph_advance font c) \<le> 255 * length cs"
proof (induction cs)
  case Nil
  then show ?case by simp
next
  case (Cons c cs)
  have "unat (advance (glyphs font ! nat (glyph_index c))) < 2 ^ 8"
    using unsigned_less[of "advance (glyphs font ! nat (glyph_index c))"] by simp
  then have "glyph_advance font c \<le> 255" by (simp add: glyph_advance_def)
  with Cons show ?case by simp
qed

lemma unat_sum_advance:
  assumes "length cs \<le> 255"
  shows "unat (of_nat (\<Sum>c\<leftarrow>cs. glyph_advance font c) :: 16 word) = (\<Sum>c\<leftarrow>cs. glyph_advance font c)"
proof -
  have "(\<Sum>c\<leftarrow>cs. glyph_advance font c) \<le> 255 * 255"
    using sum_advance_bound[of font cs] assms by (meson le_trans mult_le_mono2)
  then have "(\<Sum>c\<leftarrow>cs. glyph_advance font c) < 2 ^ 16" by simp
  then show ?thesis by (simp add: unat_of_nat)
qed






lemma unat_of_nat_u8: "n \<le> 255 \<Longrightarrow> unat (of_nat n :: 8 word) = n"
  by (simp add: unat_of_nat)

lemma string_at_reads:
  assumes "string_at s (xs @ ys @ zs)"
  shows "\<forall>k<length ys. char_at s (int (length xs + k)) = Inr (ys ! k)"
proof (intro allI impI)
  fix k assume k: "k < length ys"
  have "(xs @ ys @ zs) ! (length xs + k) = ys ! k"
    using k by (simp add: nth_append)
  moreover have "length xs + k < length (xs @ ys @ zs)" using k by simp
  ultimately show "char_at s (int (length xs + k)) = Inr (ys ! k)"
    using string_at_char[OF assms, of "length xs + k"] by simp
qed

text \<open>
  C9 (as amended). A byte \<open>b\<close> with \<open>20 \<le> b \<le> 31\<close> that follows printable text is not skipped
  (the test is \<open>c < 20\<close>, decimal): \<open>getTextWidth\<close> hands it to \<open>getGlyph\<close>. The index
  \<open>c - 0x20\<close> is computed in \<open>int\<close>, so it does not wrap around but is negative, between -12
  and -1, and the read is before the start of the glyph table, whatever the font.
\<close>

theorem getTextWidth_control_byte:
  assumes "string_at s (pre @ b # post)" "list_all printable pre" "length pre < 32"
    "length pre < unat len" "95 \<le> length (glyphs font)" "20 \<le> b" "b \<le> 31"
  shows "getTextWidth s len font = Inl (GlyphIndex (glyph_index b)) \<and>
         getGlyph font b = Inl (GlyphIndex (glyph_index b)) \<and>
         glyph_index b = uint b - 0x20 \<and> - 12 \<le> glyph_index b \<and> glyph_index b \<le> - 1"
proof -
  have ub: "20 \<le> unat b" "unat b \<le> 31"
    using assms(6,7) by (simp_all add: word_le_nat_alt)
  have u: "uint b = int (unat b)" by simp
  have gi: "- 12 \<le> glyph_index b" "glyph_index b \<le> - 1"
    unfolding glyph_index_def using ub u by linarith+
  have gg: "getGlyph font b = Inl (GlyphIndex (glyph_index b))"
    using gi by (simp add: getGlyph_def Let_def)
  have nz: "b \<noteq> 0" using ub by auto
  have n20: "\<not> b < 20" using ub by (simp add: word_less_nat_alt)
  have n7f: "\<not> 0x7f < b" using ub by (simp add: word_less_nat_alt)
  have rd: "\<forall>k<length pre. char_at s (int (0 + k)) = Inr (pre ! k)"
    using string_at_reads[of s "[]" pre "b # post"] assms(1) by simp
  have cb: "char_at s (int (length pre)) = Inr b"
    using string_at_char[OF assms(1), of "length pre"] by simp
  let ?w = "0 + of_nat (\<Sum>c\<leftarrow>pre. glyph_advance font c) :: 16 word"
  let ?r = "if pre = [] then False else False"
  have split: "[0 ..< unat len] = [0 ..< 0 + length pre] @ (length pre # [Suc (length pre) ..< unat len])"
    using assms(4) upt_add_eq_append[of 0 "length pre" "unat len - length pre"]
    by (simp add: upt_conv_Cons del: upt_Suc)
  have "getTextWidth s len font =
        getTextWidth_loop s font ([0 ..< 0 + length pre] @ (length pre # [Suc (length pre) ..< unat len])) 0 False []"
    by (simp only: getTextWidth_def split)
  also have "\<dots> = getTextWidth_loop s font (length pre # [Suc (length pre) ..< unat len]) ?w ?r ([] @ pre)"
    using assms(3) by (intro loop_printable_prefix[OF assms(5) rd assms(2)]) simp
  also have "\<dots> = Inl (GlyphIndex (glyph_index b))"
    using cb nz n20 n7f gg assms(3) by (simp add: getTextWidth_loop.simps(2))
  finally show ?thesis using gg gi by (simp add: glyph_index_def)
qed


theorem getTextWidth_control_byte_witness:
  "string_at (literal [0x41, 0x14]) ([0x41] @ 0x14 # []) \<and> list_all printable [0x41] \<and>
   length [0x41 :: uint8_t] < unat (2 :: uint8_t) \<and> 95 \<le> length (glyphs demo_font) \<and>
   getTextWidth (literal [0x41, 0x14]) 2 demo_font = Inl (GlyphIndex (- 12)) \<and>
   getGlyph demo_font 0x14 = Inl (GlyphIndex (- 12))"
proof -
  have h1: "string_at (literal [0x41, 0x14]) ([0x41] @ 0x14 # [])"
    by (simp add: string_at_def literal_def)
  have h2: "list_all printable [0x41]" by (simp add: printable_def)
  have h3: "length [0x41 :: uint8_t] < 32" by simp
  have h4: "length [0x41 :: uint8_t] < unat (2 :: uint8_t)" by simp
  have h5: "95 \<le> length (glyphs demo_font)" by (simp add: demo_font_def)
  have h6: "(20 :: uint8_t) \<le> 0x14" by simp
  have h7: "(0x14 :: uint8_t) \<le> 31" by simp
  have g: "glyph_index 0x14 = - 12" by (simp add: glyph_index_def)
  show ?thesis
    using getTextWidth_control_byte[OF h1 h2 h3 h4 h5 h6 h7] h1 h2 h4 h5 unfolding g by simp
qed

text \<open>
  The claim as written has the index wrap around as an unsigned byte, which for the byte 20
  would be 244, inside a table of 256 glyphs. The code computes -12.
\<close>

theorem getGlyph_index_counterexample:
  "getGlyph \<lparr>bitmaps = [], glyphs = replicate 256 demo_glyph\<rparr> 20 = Inl (GlyphIndex (- 12)) \<and>
   glyph_index 20 = - 12 \<and> uint ((20 :: uint8_t) - 0x20) = 244"
  by (simp add: getGlyph_def glyph_index_def)

text \<open>
  C1 (what the code does). A run of bytes above \<open>0x7f\<close> between printable text leaves
  no trace: the text that \<open>getTextWidth\<close> returns is the printable characters alone, with no
  \<open>#\<close> for the run, and the width is the sum of their advances alone.
\<close>

theorem getTextWidth_drops_high_bytes:
  assumes "string_at s (pre @ mid @ post)" "list_all printable pre" "list_all (\<lambda>c. 0x7f < c) mid"
    "list_all printable post" "length pre + length post \<le> 32" "length (pre @ mid @ post) \<le> 255"
    "95 \<le> length (glyphs font)"
  shows "\<exists>w. getTextWidth s (of_nat (length (pre @ mid @ post))) font = Inr (w, pre @ post) \<and>
             unat w = (\<Sum>c\<leftarrow>pre @ post. glyph_advance font c)"
proof -
  let ?n = "length (pre @ mid @ post)"
  have len: "unat (of_nat ?n :: 8 word) = ?n"
    using assms(6) by (rule unat_of_nat_u8)
  have rd1: "\<forall>k<length pre. char_at s (int (0 + k)) = Inr (pre ! k)"
    using string_at_reads[of s "[]" pre "mid @ post"] assms(1) by simp
  have rd2: "\<forall>k<length mid. char_at s (int (length pre + k)) = Inr (mid ! k)"
    using string_at_reads[of s pre mid post] assms(1) by simp
  have rd3: "\<forall>k<length post. char_at s (int ((length pre + length mid) + k)) = Inr (post ! k)"
    using string_at_reads[of s "pre @ mid" post "[]"] assms(1) by simp
  let ?i1 = "[0 ..< 0 + length pre]"
  let ?i2 = "[length pre ..< length pre + length mid]"
  let ?i3 = "[length pre + length mid ..< (length pre + length mid) + length post]"
  let ?w1 = "0 + of_nat (\<Sum>c\<leftarrow>pre. glyph_advance font c) :: 16 word"
  let ?r1 = "if pre = [] then False else False"
  let ?r2 = "if mid = [] then ?r1 else True"
  have split: "[0 ..< ?n] = ?i1 @ (?i2 @ (?i3 @ []))"
    using upt_add_eq_append[of 0 "length pre" "length mid + length post"]
      upt_add_eq_append[of "length pre" "length pre + length mid" "length post"]
    by (simp add: add.assoc)
  have "getTextWidth s (of_nat ?n) font = getTextWidth_loop s font (?i1 @ (?i2 @ (?i3 @ []))) 0 False []"
    by (simp only: getTextWidth_def len split)
  also have "\<dots> = getTextWidth_loop s font (?i2 @ (?i3 @ [])) ?w1 ?r1 ([] @ pre)"
    using assms(5) by (intro loop_printable_prefix[OF assms(7) rd1 assms(2)]) simp
  also have "\<dots> = getTextWidth_loop s font (?i3 @ []) ?w1 ?r2 ([] @ pre)"
    by (intro loop_high_bytes[OF rd2 assms(3)])
  also have "\<dots> = getTextWidth_loop s font [] (?w1 + of_nat (\<Sum>c\<leftarrow>post. glyph_advance font c))
       (if post = [] then ?r2 else False) (([] @ pre) @ post)"
    using assms(5) by (intro loop_printable_prefix[OF assms(7) rd3 assms(4)]) simp
  finally have "getTextWidth s (of_nat ?n) font =
      Inr (of_nat (\<Sum>c\<leftarrow>pre @ post. glyph_advance font c), pre @ post)"
    by simp
  moreover have "unat (of_nat (\<Sum>c\<leftarrow>pre @ post. glyph_advance font c) :: 16 word) =
      (\<Sum>c\<leftarrow>pre @ post. glyph_advance font c)"
    using assms(5) by (intro unat_sum_advance) simp
  ultimately show ?thesis by blast
qed

theorem getTextWidth_drops_high_bytes_witness:
  "string_at (literal [0x41, 0xC3, 0xA4, 0x42]) ([0x41] @ [0xC3, 0xA4] @ [0x42]) \<and>
   list_all printable [0x41] \<and> list_all (\<lambda>c. 0x7f < c) [0xC3, 0xA4 :: uint8_t] \<and>
   list_all printable [0x42] \<and> 95 \<le> length (glyphs demo_font) \<and>
   (\<exists>w. getTextWidth (literal [0x41, 0xC3, 0xA4, 0x42]) 4 demo_font = Inr (w, [0x41, 0x42]) \<and>
        unat w = 20)"
proof -
  have h1: "string_at (literal [0x41, 0xC3, 0xA4, 0x42]) ([0x41] @ [0xC3, 0xA4] @ [0x42])"
    by (simp add: string_at_def literal_def)
  have h2: "list_all printable [0x41]" by (simp add: printable_def)
  have h3: "list_all (\<lambda>c. 0x7f < c) [0xC3, 0xA4 :: uint8_t]" by simp
  have h4: "list_all printable [0x42]" by (simp add: printable_def)
  have h5: "length [0x41 :: uint8_t] + length [0x42 :: uint8_t] \<le> 32" by simp
  have h6: "length ([0x41] @ [0xC3, 0xA4] @ [0x42 :: uint8_t]) \<le> 255" by simp
  have h7: "95 \<le> length (glyphs demo_font)" by (simp add: demo_font_def)
  have adv: "(\<Sum>c\<leftarrow>[0x41] @ [0x42]. glyph_advance demo_font c) = 20"
    by (simp add: glyph_advance_def glyph_index_def demo_font_def demo_glyph_def)
  show ?thesis
    using getTextWidth_drops_high_bytes[OF h1 h2 h3 h4 h5 h6 h7] h1 h2 h3 h4 h7 unfolding adv by simp
qed

section \<open>Sequencing, the bus, and filling\<close>

lemma pseq_Inr_iff:
  "pseq m f = Some (Inr y) \<longleftrightarrow> (\<exists>x. m = Some (Inr x) \<and> f x = Some (Inr y))"
  by (auto simp: pseq_def split: option.splits sum.splits)

lemma pseq_simps [simp]:
  "pseq None f = None" "pseq (Some (Inl e)) f = Some (Inl e)" "pseq (Some (Inr x)) f = f x"
  by (simp_all add: pseq_def)

lemma seq_simps [simp]:
  "seq (Inl e) f = Inl e" "seq (Inr x) f = f x"
  by (simp_all add: seq_def)

lemma seq_Inr_iff: "seq m f = Inr y \<longleftrightarrow> (\<exists>x. m = Inr x \<and> f x = Inr y)"
  by (cases m) simp_all

lemma bus_only_refl: "bus_only d d"
proof -
  have "d = d\<lparr>polls := polls d\<rparr>" by simp
  then show ?thesis unfolding bus_only_def by blast
qed

lemma bus_only_trans: "bus_only a b \<Longrightarrow> bus_only b c \<Longrightarrow> bus_only a c"
  by (auto simp: bus_only_def)

lemma bus_only_fields:
  assumes "bus_only d d'"
  shows "buffer d' = buffer d" "busy d' = busy d" "hardware_width d' = hardware_width d"
    "area_width d' = area_width d" "area_cursor d' = area_cursor d"
  using assms by (auto simp: bus_only_def)

lemma await_spi_result:
  assumes "await_spi spi d = Some r"
  shows "\<exists>d'. r = Inr d' \<and> bus_only d d'"
proof (rule await_spi.raw_induct[OF _ assms])
  fix f spi d r
  assume IH: "\<And>spi d r. f spi d = Some r \<Longrightarrow> \<exists>d'. r = Inr d' \<and> bus_only d d'"
    and eq: "(if spi (polls d) then f spi (d\<lparr>polls := Suc (polls d)\<rparr>)
              else Some (Inr (d\<lparr>polls := Suc (polls d)\<rparr>))) = Some r"
  show "\<exists>d'. r = Inr d' \<and> bus_only d d'"
  proof (cases "spi (polls d)")
    case True
    with eq have "f spi (d\<lparr>polls := Suc (polls d)\<rparr>) = Some r" by simp
    from IH[OF this] show ?thesis by (auto simp: bus_only_def)
  next
    case False
    with eq show ?thesis by (auto simp: bus_only_def)
  qed
qed

lemma await_spi_bus_only: "await_spi spi d = Some (Inr d') \<Longrightarrow> bus_only d d'"
  using await_spi_result by blast

lemma await_spi_no_fault: "await_spi spi d \<noteq> Some (Inl e)"
  using await_spi_result by blast

lemma loop_result:
  assumes "loop spi d = Some r"
  shows "\<exists>d'. r = Inr d' \<and> buffer d' = buffer d \<and> (busy d' \<longrightarrow> busy d) \<and> hardware_width d' = hardware_width d"
proof (cases "busy d \<and> \<not> spi (polls d)")
  case False
  then show ?thesis using assms by (auto simp: loop_def split: if_splits)
next
  case True
  then have "pseq (finishWrite spi (d\<lparr>polls := Suc (polls d)\<rparr>)) (\<lambda>d. Some (Inr (d\<lparr>busy := False\<rparr>))) = Some r"
    using assms by (simp add: loop_def)
  then obtain d1 where a: "await_spi spi (d\<lparr>polls := Suc (polls d)\<rparr>) = Some (Inr d1)" and r: "r = Inr (d1\<lparr>busy := False\<rparr>)"
    using await_spi_result[of spi "d\<lparr>polls := Suc (polls d)\<rparr>"]
    by (cases "await_spi spi (d\<lparr>polls := Suc (polls d)\<rparr>)") (auto simp: finishWrite_def)
  from await_spi_bus_only[OF a] show ?thesis using r by (auto simp: bus_only_def)
qed

lemma unat_succ_u16: "unat (i + 1 :: 16 word) = (if unat i = 65535 then 0 else unat i + 1)"
proof -
  have "unat (i + 1) = (unat i + 1) mod 2 ^ 16"
    by (simp add: unat_word_ariths)
  moreover have "unat i < 2 ^ LENGTH(16)" by (rule unsigned_less)
  ultimately show ?thesis by (simp split: if_splits)
qed

lemma unat_lt_u16: "unat (i :: 16 word) < 65536"
proof -
  have "unat i < 2 ^ LENGTH(16)" by (rule unsigned_less)
  then show ?thesis by simp
qed

lemma buffer_set_uint:
  "buffer_set (uint i) v buf =
     (if unat i < length buf then Inr (buf[unat i := v]) else Inl (BufferIndex (uint i)))"
proof -
  have u: "uint i = int (unat i)" by simp
  have "uint i < int (length buf) \<longleftrightarrow> unat i < length buf"
    unfolding u by (rule of_nat_less_iff)
  then show ?thesis by (simp add: buffer_set_def)
qed

lemma buffer_set_Inr_iff:
  "buffer_set i v buf = Inr buf' \<longleftrightarrow> 0 \<le> i \<and> i < int (length buf) \<and> buf' = buf[nat i := v]"
  by (auto simp: buffer_set_def)

lemma buffer_set_Inl_iff:
  "buffer_set i v buf = Inl e \<longleftrightarrow> \<not> (0 \<le> i \<and> i < int (length buf)) \<and> e = BufferIndex i"
  by (auto simp: buffer_set_def)

lemma fill_cells_result:
  assumes "fill_cells i len v buf = Some r"
  shows "(\<forall>e. r = Inl e \<longrightarrow> (\<exists>k. e = BufferIndex k)) \<and>
         (\<forall>buf'. r = Inr buf' \<longrightarrow>
            (unat i < len \<longrightarrow> len \<le> 65535 \<and> len \<le> length buf) \<and> length buf' = length buf \<and>
            (\<forall>k<length buf. buf' ! k = (if unat i \<le> k \<and> k < len then v else buf ! k)))"
    (is "?P i len v buf r")
proof (rule fill_cells.raw_induct[OF _ assms])
  fix f i len v buf r
  assume IH: "\<And>i len v buf r. f i len v buf = Some r \<Longrightarrow> ?P i len v buf r"
    and eq: "(if unat i < len then
                (case buffer_set (uint i) v buf of Inl e \<Rightarrow> Some (Inl e)
                 | Inr buf' \<Rightarrow> f (i + 1) len v buf')
              else Some (Inr buf)) = Some r"
  show "?P i len v buf r"
  proof (cases "unat i < len")
    case False
    with eq have "r = Inr buf" by simp
    with False show ?thesis by auto
  next
    case True
    show ?thesis
    proof (cases "buffer_set (uint i) v buf")
      case (Inl e)
      then have "e = BufferIndex (uint i)" by (simp add: buffer_set_uint split: if_splits)
      moreover from True eq Inl have "r = Inl e" by simp
      ultimately show ?thesis by blast
    next
      case (Inr buf1)
      then have b1: "unat i < length buf" "buf1 = buf[unat i := v]"
        by (simp_all add: buffer_set_uint split: if_splits)
      from True eq Inr have rec: "f (i + 1) len v buf1 = Some r" by simp
      note ih = IH[OF rec]
      show ?thesis
      proof (intro conjI allI impI)
        fix e assume "r = Inl e" then show "\<exists>k. e = BufferIndex k" using ih by blast
      next
        fix buf' assume r: "r = Inr buf'"
        from ih r have ih1: "unat (i + 1) < len \<longrightarrow> len \<le> 65535 \<and> len \<le> length buf1"
          and ih2: "length buf' = length buf1"
          and ih3: "\<forall>k<length buf1. buf' ! k = (if unat (i + 1) \<le> k \<and> k < len then v else buf1 ! k)"
          by blast+
        have nowrap: "unat i \<noteq> 65535"
        proof
          assume w: "unat i = 65535"
          then have "unat (i + 1) = 0" by (simp add: unat_succ_u16)
          with ih1 True w show False by simp
        qed
        then have s: "unat (i + 1) = unat i + 1" by (simp add: unat_succ_u16)
        have lt: "unat i < 65535"
          using nowrap unat_lt_u16[of i] by simp
        show "len \<le> 65535" using ih1 s lt by (cases "unat i + 1 < len") auto
        show "len \<le> length buf" using ih1 s b1 by (cases "unat i + 1 < len") auto
        show "length buf' = length buf" using ih2 b1 by simp
        fix k assume k: "k < length buf"
        then have "buf' ! k = (if unat i + 1 \<le> k \<and> k < len then v else buf1 ! k)"
          using ih3 s b1 by simp
        then show "buf' ! k = (if unat i \<le> k \<and> k < len then v else buf ! k)"
          using b1 k True by (cases "k = unat i") auto
      qed
    qed
  qed
qed


lemma writeCommand_result:
  "writeCommand spi d = Some r \<Longrightarrow> \<exists>d'. r = Inr d' \<and> bus_only d d'"
  unfolding writeCommand_def by (rule await_spi_result)

lemma finishWrite_result:
  "finishWrite spi d = Some r \<Longrightarrow> \<exists>d'. r = Inr d' \<and> bus_only d d'"
  unfolding finishWrite_def by (rule await_spi_result)

lemma pseq_Some_cases:
  assumes "pseq m f = Some r"
  obtains e where "m = Some (Inl e)" "r = Inl e" | x where "m = Some (Inr x)" "f x = Some r"
  using assms by (auto simp: pseq_def split: option.splits sum.splits)

lemma pseq_bus_only:
  assumes m: "\<And>r. m = Some r \<Longrightarrow> \<exists>d'. r = Inr d' \<and> bus_only d d'"
    and f: "\<And>d1 r. bus_only d d1 \<Longrightarrow> f d1 = Some r \<Longrightarrow> \<exists>d'. r = Inr d' \<and> bus_only d1 d'"
    and eq: "pseq m f = Some r"
  shows "\<exists>d'. r = Inr d' \<and> bus_only d d'"
proof -
  from eq show ?thesis
  proof (cases rule: pseq_Some_cases)
    case (1 e)
    with m show ?thesis by blast
  next
    case (2 x)
    with m[OF 2(1)] have b: "bus_only d x" by simp
    from f[OF b 2(2)] b show ?thesis by (blast intro: bus_only_trans)
  qed
qed

lemma writeSetWindow_result:
  assumes "writeSetWindow spi x y w h d = Some r"
  shows "\<exists>d'. r = Inr d' \<and> bus_only d d'"
  using assms unfolding writeSetWindow_def
  by (elim pseq_bus_only[rotated 2]) (auto dest: writeCommand_result)


lemma write_buffer_result:
  assumes "write_buffer spi len d = Some r"
  shows "(\<forall>e. r = Inl e \<longrightarrow> (\<exists>k. e = BufferIndex k)) \<and> (\<forall>d'. r = Inr d' \<longrightarrow> bus_only d d')"
proof -
  from assms[unfolded write_buffer_def] show ?thesis
  proof (cases rule: pseq_Some_cases)
    case (1 e)
    then show ?thesis using await_spi_no_fault by blast
  next
    case (2 x)
    from await_spi_bus_only[OF 2(1)] 2(2) show ?thesis by (auto split: if_splits)
  qed
qed

lemma write_bursts_result:
  assumes "write_bursts spi n len d = Some r"
  shows "(\<forall>e. r = Inl e \<longrightarrow> (\<exists>k. e = BufferIndex k)) \<and> (\<forall>d'. r = Inr d' \<longrightarrow> bus_only d d')"
    (is "?P d r")
proof (rule write_bursts.raw_induct[OF _ assms])
  fix f spi n len d r
  assume IH: "\<And>spi n len d r. f spi n len d = Some r \<Longrightarrow> ?P d r"
    and eq: "(if 0 < n then
               let count = (of_nat (min n len) :: uint16_t) in
               pseq (write_buffer spi (of_nat (unat count * 2)) d) (\<lambda>d'. f spi (n - unat count) len d')
              else Some (Inr d)) = Some r"
  show "?P d r"
  proof (cases "0 < n")
    case False
    with eq have "r = Inr d" by simp
    then show ?thesis by (simp add: bus_only_refl)
  next
    case True
    let ?count = "of_nat (min n len) :: uint16_t"
    from True eq have "pseq (write_buffer spi (of_nat (unat ?count * 2)) d)
        (\<lambda>d'. f spi (n - unat ?count) len d') = Some r"
      by (simp add: Let_def)
    then show ?thesis
    proof (cases rule: pseq_Some_cases)
      case (1 e)
      with write_buffer_result[OF 1(1)] show ?thesis by simp
    next
      case (2 x)
      from write_buffer_result[OF 2(1)] have b: "bus_only d x" by simp
      from IH[OF 2(2)] b show ?thesis by (blast intro: bus_only_trans)
    qed
  qed
qed

lemma writeFillRectangle_result:
  assumes "writeFillRectangle spi x y w h color d = Some (Inr d')"
  shows "\<not> busy d \<and> hardware_width d' = hardware_width d \<and> busy d' = busy d \<and>
    length (buffer d') = length (buffer d) \<and>
    (\<forall>k<length (buffer d). buffer d' ! k =
       (if k < fill_length w h d then bswap16 color else buffer d ! k)) \<and>
    (0 < fill_length w h d \<longrightarrow> fill_length w h d \<le> length (buffer d))"
proof -
  let ?n = "(unat w * unat h) mod 2 ^ 32"
  from assms obtain d1 where w1: "writeSetWindow spi x y w h d = Some (Inr d1)"
    and rest: "pseq (modify_buffer_p d1 (fill_cells 0 (min ?n (unat (hardware_width d1) * row_size)) (bswap16 color)))
            (write_bursts spi ?n (min ?n (unat (hardware_width d1) * row_size))) = Some (Inr d')"
    by (auto simp: writeFillRectangle_def pseq_Inr_iff Let_def)
  from writeSetWindow_result[OF w1] have b1: "bus_only d d1" by simp
  note f1 = bus_only_fields[OF b1]
  let ?len = "fill_length w h d"
  have len: "min ?n (unat (hardware_width d1) * row_size) = ?len"
    by (simp add: fill_length_def f1)
  from rest obtain d2 where m: "modify_buffer_p d1 (fill_cells 0 ?len (bswap16 color)) = Some (Inr d2)"
    and wb: "write_bursts spi ?n ?len d2 = Some (Inr d')"
    unfolding len by (auto simp: pseq_Inr_iff)
  from m have nb: "\<not> busy d1" by (auto simp: modify_buffer_p_def split: if_splits)
  from m nb obtain buf' where fc: "fill_cells 0 ?len (bswap16 color) (buffer d1) = Some (Inr buf')"
    and d2: "d2 = d1\<lparr>buffer := buf'\<rparr>"
    by (auto simp: modify_buffer_p_def split: option.splits sum.splits)
  from write_bursts_result[OF wb] have b2: "bus_only d2 d'" by simp
  note f2 = bus_only_fields[OF b2]
  from fill_cells_result[OF fc] have
    r1: "unat (0 :: uint16_t) < ?len \<longrightarrow> ?len \<le> 65535 \<and> ?len \<le> length (buffer d1)"
    and r2: "length buf' = length (buffer d1)"
    and r3: "\<forall>k<length (buffer d1). buf' ! k = (if unat (0 :: uint16_t) \<le> k \<and> k < ?len then bswap16 color else buffer d1 ! k)"
    by blast+
  show ?thesis
    using nb f1 f2 d2 r1 r2 r3 by simp
qed

lemma fill_length_frame: "hardware_width d' = hardware_width d \<Longrightarrow> fill_length w h d' = fill_length w h d"
  by (simp add: fill_length_def)

text \<open>
  C8. When \<open>writeFillRectangle\<close> is executed twice in succession with the same rectangle and
  colour, the buffer after the second execution is the buffer after the first, and every cell
  that was written holds the byte-swapped colour.
\<close>

theorem writeFillRectangle_idempotent:
  assumes "writeFillRectangle spi x y w h color d = Some (Inr d1)"
    and "writeFillRectangle spi x y w h color d1 = Some (Inr d2)"
  shows "buffer d2 = buffer d1 \<and>
    (\<forall>k < fill_length w h d. k < length (buffer d1) \<and> buffer d1 ! k = bswap16 color)"
proof -
  let ?len = "fill_length w h d"
  note r1 = writeFillRectangle_result[OF assms(1)]
  note r2 = writeFillRectangle_result[OF assms(2)]
  have hw: "fill_length w h d1 = ?len" using r1 by (intro fill_length_frame) simp
  have len1: "length (buffer d1) = length (buffer d)" using r1 by simp
  have cells1: "k < length (buffer d1) \<and> buffer d1 ! k = bswap16 color" if "k < ?len" for k
  proof -
    from that have "0 < ?len" by linarith
    with r1 have "?len \<le> length (buffer d)" by blast
    with that have k: "k < length (buffer d)" by linarith
    with r1 that have "buffer d1 ! k = bswap16 color" by simp
    with k len1 show ?thesis by simp
  qed
  have "buffer d2 ! k = buffer d1 ! k" if "k < length (buffer d1)" for k
  proof (cases "k < ?len")
    case True
    with r2 that hw have "buffer d2 ! k = bswap16 color" by simp
    with cells1[OF True] show ?thesis by simp
  next
    case False
    with r2 that hw show ?thesis by simp
  qed
  moreover have "length (buffer d2) = length (buffer d1)" using r2 by simp
  ultimately have "buffer d2 = buffer d1" by (simp add: nth_equalityI)
  then show ?thesis using cells1 by blast
qed

lemma await_spi_idle:
  "\<not> spi (polls d) \<Longrightarrow> await_spi spi d = Some (Inr (d\<lparr>polls := Suc (polls d)\<rparr>))"
  by (subst await_spi.simps) simp

lemma fill_cells_from:
  assumes "len \<le> 65535" "len \<le> length buf" "unat i \<le> len"
  shows "fill_cells i len v buf =
         Some (Inr (take (unat i) buf @ replicate (len - unat i) v @ drop len buf))"
  using assms
proof (induction "len - unat i" arbitrary: i buf)
  case 0
  then have "unat i = len" by simp
  then show ?case by (subst fill_cells.simps) simp
next
  case (Suc n)
  then have lt: "unat i < len" by simp
  with Suc.prems have k: "unat i < length buf" "unat i \<noteq> 65535" by simp_all
  then have s: "unat (i + 1) = Suc (unat i)" by (simp add: unat_succ_u16)
  have n: "n = len - unat (i + 1)" using Suc.hyps(2) s by simp
  have "fill_cells i len v buf = fill_cells (i + 1) len v (buf[unat i := v])"
    using lt k by (subst fill_cells.simps) (simp add: buffer_set_uint)
  also have "\<dots> = Some (Inr (take (unat (i + 1)) (buf[unat i := v]) @
      replicate (len - unat (i + 1)) v @ drop len (buf[unat i := v])))"
    using Suc.prems lt s by (intro Suc.hyps(1)[OF n]) simp_all
  also have "take (unat (i + 1)) (buf[unat i := v]) = take (unat i) buf @ [v]"
    using k by (simp add: s take_Suc_conv_app_nth)
  also have "drop len (buf[unat i := v]) = drop len buf"
    using lt by simp
  also have "replicate (len - unat (i + 1)) v = replicate n v" using n by simp
  finally have "fill_cells i len v buf =
      Some (Inr (take (unat i) buf @ (v # replicate n v) @ drop len buf))" by simp
  moreover have "v # replicate n v = replicate (len - unat i) v"
    using Suc.hyps(2)[symmetric] by simp
  ultimately show ?case by simp
qed

lemma fill_cells_total:
  assumes "len \<le> 65535" "len \<le> length buf"
  shows "fill_cells 0 len v buf = Some (Inr (replicate len v @ drop len buf))"
  using fill_cells_from[OF assms, of 0 v] by simp


lemma bswap16_example: "bswap16 0x1234 = 0x3412"
  by (simp add: bswap16_def)

theorem writeFillRectangle_idempotent_witness:
  "writeFillRectangle idle_bus 0 0 2 3 0x1234 demo_display =
     Some (Inr (demo_display\<lparr>polls := 4, buffer := replicate 6 0x3412 @ replicate 54 0xAAAA\<rparr>)) \<and>
   writeFillRectangle idle_bus 0 0 2 3 0x1234
       (demo_display\<lparr>polls := 4, buffer := replicate 6 0x3412 @ replicate 54 0xAAAA\<rparr>) =
     Some (Inr (demo_display\<lparr>polls := 8, buffer := replicate 6 0x3412 @ replicate 54 0xAAAA\<rparr>)) \<and>
   fill_length 2 3 demo_display = 6 \<and>
   (replicate 6 0x3412 @ replicate 54 0xAAAA) ! 5 = bswap16 0x1234"
proof -
  let ?d1 = "demo_display\<lparr>polls := 4, buffer := replicate 6 0x3412 @ replicate 54 0xAAAA\<rparr>"
  let ?d2 = "demo_display\<lparr>polls := 8, buffer := replicate 6 0x3412 @ replicate 54 0xAAAA\<rparr>"
  have h1: "writeFillRectangle idle_bus 0 0 2 3 0x1234 demo_display = Some (Inr ?d1)"
    by (simp add: writeFillRectangle_def writeSetWindow_def writeCommand_def await_spi_idle
        idle_bus_def modify_buffer_p_def fill_cells_total write_bursts.simps write_buffer_def
        demo_display_def row_size_def bswap16_example Let_def)
  have h2: "writeFillRectangle idle_bus 0 0 2 3 0x1234 ?d1 = Some (Inr ?d2)"
    by (simp add: writeFillRectangle_def writeSetWindow_def writeCommand_def await_spi_idle
        idle_bus_def modify_buffer_p_def fill_cells_total write_bursts.simps write_buffer_def
        demo_display_def row_size_def bswap16_example Let_def)
  have n: "fill_length 2 3 demo_display = 6"
    by (simp add: fill_length_def demo_display_def row_size_def)
  from writeFillRectangle_idempotent[OF h1 h2]
  have "(replicate 6 0x3412 @ replicate 54 0xAAAA) ! 5 = bswap16 0x1234"
    unfolding n by simp
  with h1 h2 n show ?thesis by simp
qed

section \<open>Font selection and justification\<close>

lemma fit_font_refines:
  "fit_font fonts s len aw =
   seq (font_escalation fonts s len aw) (\<lambda>(p, w, t). Inr (p, if aw < w then aw else w, t))"
  by (auto simp: fit_font_def font_escalation_def seq_def not_le split: sum.splits prod.splits)

lemma c_div_nonneg: "0 \<le> a \<Longrightarrow> c_div a 2 = a div 2"
  by (cases "a = 0") (simp_all add: c_div_def)

lemma uint_word_of_int_u16: "0 \<le> k \<Longrightarrow> k < 65536 \<Longrightarrow> uint (word_of_int k :: 16 word) = k"
  by (simp add: uint_word_of_int)

lemma justify_values:
  assumes "tw \<le> aw"
  shows "justify_cursor Left aw tw = 0"
    "uint (justify_cursor Center aw tw) = (uint aw - uint tw) div 2"
    "uint (justify_cursor Right aw tw) = uint aw - uint tw"
proof -
  have le: "uint tw \<le> uint aw" using assms by (simp add: word_le_def)
  have b: "uint aw < 65536" using uint_bounded[of aw] by simp
  have nn: "0 \<le> uint tw" by simp
  show "justify_cursor Left aw tw = 0" by (simp add: justify_cursor_def)
  have "uint (justify_cursor Right aw tw) = uint (word_of_int (uint aw - uint tw) :: 16 word)"
    by (simp add: justify_cursor_def)
  also have "\<dots> = uint aw - uint tw"
    using le b nn by (intro uint_word_of_int_u16) linarith+
  finally show "uint (justify_cursor Right aw tw) = uint aw - uint tw" .
  have "uint (justify_cursor Center aw tw) = uint (word_of_int ((uint aw - uint tw) div 2) :: 16 word)"
    using le by (simp add: justify_cursor_def c_div_nonneg)
  also have "\<dots> = (uint aw - uint tw) div 2"
    using le b nn by (intro uint_word_of_int_u16) linarith+
  finally show "uint (justify_cursor Center aw tw) = (uint aw - uint tw) div 2" .
qed

lemma j100: "justify_cursor Left 100 40 = 0" "justify_cursor Center 100 40 = 30" "justify_cursor Right 100 40 = 60"
  by (simp_all add: justify_cursor_def c_div_def)


lemma font_escalation_measured:
  assumes "font_escalation fonts s len aw = Inr (p, w, t)"
  shows "getTextWidth s len (deref fonts p) = Inr (w, t)"
  using assms
  by (auto simp: font_escalation_def deref_def seq_Inr_iff split: if_splits)

text \<open>
  C5 (as amended). The text width that enters the justification is the width measured with the
  chosen font, cut down to the width of the area where it is larger. With it, \<open>Left\<close> sets the
  cursor to 0, \<open>Center\<close> to (area width - text width) / 2 rounded down, \<open>Right\<close> to
  area width - text width; for an area width of 100 and a text width of 40 the cursors are 0,
  30 and 60.
\<close>

theorem print_cursor_justified:
  assumes "fit_font fonts s len aw = Inr (p, tw, t)"
  shows "(\<exists>m. getTextWidth s len (deref fonts p) = Inr (m, t) \<and> tw = (if aw < m then aw else m)) \<and>
     justify_cursor Left aw tw = 0 \<and>
     uint (justify_cursor Center aw tw) = (uint aw - uint tw) div 2 \<and>
     uint (justify_cursor Right aw tw) = uint aw - uint tw \<and>
     justify_cursor Left 100 40 = 0 \<and> justify_cursor Center 100 40 = 30 \<and>
     justify_cursor Right 100 40 = 60"
proof -
  from assms obtain m where e: "font_escalation fonts s len aw = Inr (p, m, t)"
    and tw: "tw = (if aw < m then aw else m)"
    by (auto simp: fit_font_refines seq_Inr_iff)
  have le: "tw \<le> aw" using tw by auto
  from font_escalation_measured[OF e] tw justify_values[OF le] j100
  show ?thesis by blast
qed

text \<open>
  C3. The font that \<open>print\<close> selects is the one the escalation of the specification
  selects: the default font where the text measured with it is not wider than the area, whatever
  the other two fonts are; else the condensed font where the text measured with it is not wider;
  else the small condensed font. With the last font the text may still be wider than the area:
  the selection succeeds all the same, with the text width cut down to the width of the area,
  and \<open>print\<close> goes on to \<open>render_text\<close>, which clips glyph by glyph.
\<close>

theorem fit_font_escalation:
  "fit_font fonts s len aw =
     seq (font_escalation fonts s len aw) (\<lambda>(p, w, t). Inr (p, if aw < w then aw else w, t)) \<and>
   (\<forall>wd td. getTextWidth s len (fontDefault fonts) = Inr (wd, td) \<and> wd \<le> aw \<longrightarrow>
      fit_font fonts s len aw = Inr (Default, wd, td)) \<and>
   (\<forall>wd td wc tc. getTextWidth s len (fontDefault fonts) = Inr (wd, td) \<and> aw < wd \<and>
      getTextWidth s len (fontCondensed fonts) = Inr (wc, tc) \<and> wc \<le> aw \<longrightarrow>
      fit_font fonts s len aw = Inr (Condensed, wc, tc)) \<and>
   (\<forall>wd td wc tc ws ts. getTextWidth s len (fontDefault fonts) = Inr (wd, td) \<and> aw < wd \<and>
      getTextWidth s len (fontCondensed fonts) = Inr (wc, tc) \<and> aw < wc \<and>
      getTextWidth s len (fontCondensedSmall fonts) = Inr (ws, ts) \<longrightarrow>
      fit_font fonts s len aw = Inr (CondensedSmall, if aw < ws then aw else ws, ts))"
  by (auto simp: fit_font_refines font_escalation_def)

lemma measure_AAAA:
  "getTextWidth (literal [0x41, 0x41, 0x41, 0x41]) 4 demo_font = Inr (40, [0x41, 0x41, 0x41, 0x41])"
  "getTextWidth (literal [0x41, 0x41, 0x41, 0x41]) 4 narrow_font = Inr (32, [0x41, 0x41, 0x41, 0x41])"
  "getTextWidth (literal [0x41, 0x41, 0x41, 0x41]) 4 small_font = Inr (24, [0x41, 0x41, 0x41, 0x41])"
  by (simp_all add: getTextWidth_def literal_def char_at_def getGlyph_def glyph_index_def
      demo_font_def narrow_font_def small_font_def demo_glyph_def getTextWidth_loop.simps(2) upt_rec)

theorem fit_font_escalation_witness:
  "fit_font demo_fonts (literal [0x41, 0x41, 0x41, 0x41]) 4 40 = Inr (Default, 40, [0x41, 0x41, 0x41, 0x41]) \<and>
   fit_font demo_fonts (literal [0x41, 0x41, 0x41, 0x41]) 4 35 = Inr (Condensed, 32, [0x41, 0x41, 0x41, 0x41]) \<and>
   fit_font demo_fonts (literal [0x41, 0x41, 0x41, 0x41]) 4 30 = Inr (CondensedSmall, 24, [0x41, 0x41, 0x41, 0x41]) \<and>
   fit_font demo_fonts (literal [0x41, 0x41, 0x41, 0x41]) 4 10 = Inr (CondensedSmall, 10, [0x41, 0x41, 0x41, 0x41])"
proof -
  let ?s = "literal [0x41, 0x41, 0x41, 0x41]"
  have d: "getTextWidth ?s 4 (fontDefault demo_fonts) = Inr (40, [0x41, 0x41, 0x41, 0x41])"
    and c: "getTextWidth ?s 4 (fontCondensed demo_fonts) = Inr (32, [0x41, 0x41, 0x41, 0x41])"
    and m: "getTextWidth ?s 4 (fontCondensedSmall demo_fonts) = Inr (24, [0x41, 0x41, 0x41, 0x41])"
    by (simp_all add: demo_fonts_def measure_AAAA)
  note e1 = fit_font_escalation[of demo_fonts ?s 4, THEN conjunct2, THEN conjunct1, rule_format]
  note e2 = fit_font_escalation[of demo_fonts ?s 4, THEN conjunct2, THEN conjunct2, THEN conjunct1, rule_format]
  note e3 = fit_font_escalation[of demo_fonts ?s 4, THEN conjunct2, THEN conjunct2, THEN conjunct2, rule_format]
  have "fit_font demo_fonts ?s 4 40 = Inr (Default, 40, [0x41, 0x41, 0x41, 0x41])"
    using e1[of 40 _ 40] d by simp
  moreover have "fit_font demo_fonts ?s 4 35 = Inr (Condensed, 32, [0x41, 0x41, 0x41, 0x41])"
    using e2[of 40 _ 35 32] d c by simp
  moreover have "fit_font demo_fonts ?s 4 30 = Inr (CondensedSmall, 24, [0x41, 0x41, 0x41, 0x41])"
    using e3[of 40 _ 30 32 _ 24] d c m by simp
  moreover have "fit_font demo_fonts ?s 4 10 = Inr (CondensedSmall, 10, [0x41, 0x41, 0x41, 0x41])"
    using e3[of 40 _ 10 32 _ 24] d c m by simp
  ultimately show ?thesis by simp
qed

theorem print_cursor_justified_witness:
  "fit_font demo_fonts (literal [0x41, 0x41, 0x41, 0x41]) 4 100 = Inr (Default, 40, [0x41, 0x41, 0x41, 0x41]) \<and>
   justify_cursor Left 100 40 = 0 \<and> uint (justify_cursor Center 100 40) = (uint (100 :: uint16_t) - uint (40 :: uint16_t)) div 2 \<and>
   uint (justify_cursor Right 100 40) = uint (100 :: uint16_t) - uint (40 :: uint16_t)"
proof -
  have h: "fit_font demo_fonts (literal [0x41, 0x41, 0x41, 0x41]) 4 100 = Inr (Default, 40, [0x41, 0x41, 0x41, 0x41])"
    by (simp add: fit_font_def demo_fonts_def measure_AAAA)
  from print_cursor_justified[OF h] h show ?thesis by blast
qed

text \<open>
  The claim as written takes the measured width. Where the text is wider than the area with
  all three fonts (measured 24, area 10), the cursor for \<open>Right\<close> is 0, not 10 - 24.
\<close>

theorem print_cursor_counterexample:
  "fit_font demo_fonts (literal [0x41, 0x41, 0x41, 0x41]) 4 10 = Inr (CondensedSmall, 10, [0x41, 0x41, 0x41, 0x41]) \<and>
   getTextWidth (literal [0x41, 0x41, 0x41, 0x41]) 4 (deref demo_fonts CondensedSmall) = Inr (24, [0x41, 0x41, 0x41, 0x41]) \<and>
   justify_cursor Right 10 10 = 0 \<and> justify_cursor Center 10 10 = 0 \<and>
   uint (10 :: uint16_t) - uint (24 :: uint16_t) = - 14 \<and>
   (word_of_int (uint (10 :: uint16_t) - uint (24 :: uint16_t)) :: uint16_t) = 65522"
  by (simp add: fit_font_def demo_fonts_def measure_AAAA deref_def justify_cursor_def c_div_def)

section \<open>Rendering the text\<close>

lemma modify_buffer_Inr:
  assumes "modify_buffer d f = Inr (r, d')"
  shows "\<not> busy d \<and> (\<exists>buf'. f (buffer d) = Inr (r, buf') \<and> d' = d\<lparr>buffer := buf'\<rparr>)"
  using assms by (auto simp: modify_buffer_def split: if_splits sum.splits)

lemma renderChar_advance:
  assumes "renderChar buf font wd x y c color = Inr (a, buf')" "getGlyph font c = Inr g"
  shows "a = ucast (advance g)"
  using assms by (auto simp: renderChar_def seq_Inr_iff)

lemma unat_ucast_u8_u16: "unat (ucast (w :: 8 word) :: 16 word) = unat w"
proof -
  have "unat w < 2 ^ LENGTH(8)" by (rule unsigned_less)
  then have "unat w < 2 ^ 16" by simp
  then show ?thesis by (simp add: unsigned_ucast_eq take_bit_nat_eq_self)
qed

lemma uint_ucast_u8_u16: "uint (ucast (w :: 8 word) :: 16 word) = uint w"
  using unat_ucast_u8_u16[of w] by (metis uint_nat)

lemma glyph_advance_ucast:
  "unat (ucast (advance (glyphs font ! nat (glyph_index c))) :: 16 word) = glyph_advance font c"
  by (simp add: glyph_advance_def unat_ucast_u8_u16)


lemma render_text_fitting:
  assumes font: "95 \<le> length (glyphs font)"
  shows "list_all printable cs \<Longrightarrow>
    render_text font cs d =
    draw_glyphs font (fitting font (unat (area_width d)) (unat (area_cursor d)) cs) d"
proof (induction cs arbitrary: d)
  case Nil
  then show ?case by simp
next
  case (Cons c rest)
  then have pc: "printable c" and pr: "list_all printable rest" by simp_all
  let ?g = "glyphs font ! nat (glyph_index c)"
  let ?adv = "ucast (advance ?g) :: uint16_t"
  have gg: "getGlyph font c = Inr ?g" by (rule getGlyph_printable[OF pc font])
  have ga: "unat ?adv = glyph_advance font c" by (rule glyph_advance_ucast)
  have cond: "uint (area_width d) < uint (area_cursor d) + uint ?adv \<longleftrightarrow>
      unat (area_width d) < unat (area_cursor d) + glyph_advance font c"
  proof -
    have "uint (area_width d) < uint (area_cursor d) + uint ?adv \<longleftrightarrow>
        int (unat (area_width d)) < int (unat (area_cursor d)) + int (unat ?adv)"
      by simp
    also have "\<dots> \<longleftrightarrow> unat (area_width d) < unat (area_cursor d) + unat ?adv"
      by linarith
    finally show ?thesis unfolding ga .
  qed
  let ?m = "modify_buffer d (\<lambda>buf. renderChar buf font (ucast (area_width d)) (area_cursor d) baseline c (area_foreground d))"
  show ?case
  proof (cases "unat (area_width d) < unat (area_cursor d) + glyph_advance font c")
    case True
    then show ?thesis using gg cond by (simp add: Let_def)
  next
    case False
    show ?thesis
    proof (cases ?m)
      case (Inl e)
      then show ?thesis using gg cond False by (simp add: Let_def)
    next
      case (Inr rd)
      obtain a d' where rd: "rd = (a, d')" by (cases rd)
      from modify_buffer_Inr[OF Inr[unfolded rd]] obtain buf' where
        rc: "renderChar (buffer d) font (ucast (area_width d)) (area_cursor d) baseline c (area_foreground d) = Inr (a, buf')"
        and d': "d' = d\<lparr>buffer := buf'\<rparr>" by blast
      have a: "a = ?adv" by (rule renderChar_advance[OF rc gg])
      let ?d2 = "d'\<lparr>area_cursor := area_cursor d' + ?adv\<rparr>"
      have aw2: "area_width ?d2 = area_width d" using d' by simp
      have "unat (area_width d) < 2 ^ LENGTH(16)" by (rule unsigned_less)
      then have "unat (area_cursor d) + unat ?adv < 2 ^ LENGTH(16)"
        using False ga by linarith
      then have "unat (area_cursor d + ?adv) = unat (area_cursor d) + unat ?adv"
        by (rule unat_add_lem[THEN iffD1])
      then have cur2: "unat (area_cursor ?d2) = unat (area_cursor d) + glyph_advance font c"
        using d' ga by simp
      have "render_text font (c # rest) d = render_text font rest ?d2"
        using gg cond False Inr rd by (simp add: Let_def)
      also have "\<dots> = draw_glyphs font (fitting font (unat (area_width ?d2)) (unat (area_cursor ?d2)) rest) ?d2"
        by (rule Cons.IH[OF pr])
      also have "\<dots> = draw_glyphs font (fitting font (unat (area_width d)) (unat (area_cursor d)) (c # rest)) d"
        using False Inr rd a aw2 cur2 by simp
      finally show ?thesis .
    qed
  qed
qed


lemma fitting_all:
  "cur + (\<Sum>c\<leftarrow>cs. glyph_advance font c) \<le> aw \<Longrightarrow> fitting font aw cur cs = cs"
  by (induction cs arbitrary: cur) (auto simp: add.assoc)

lemma fitting_stops:
  "cur + (\<Sum>c\<leftarrow>pre. glyph_advance font c) \<le> aw \<Longrightarrow>
   aw < cur + (\<Sum>c\<leftarrow>pre. glyph_advance font c) + glyph_advance font c \<Longrightarrow>
   fitting font aw cur (pre @ c # post) = pre"
  by (induction pre arbitrary: cur) (auto simp: add.assoc)

text \<open>
  C4. The loop of \<open>print\<close> over the text renders, in sequence and with no test, exactly the
  glyphs before the first one for which cursor + advance exceeds the width of the area. So a
  text whose advances bring the cursor exactly to the width of the area is rendered in full,
  and when a glyph would bring the cursor beyond it, by one unit or more, that glyph and all
  that follow are dropped; nothing is wrapped.
\<close>

theorem render_text_stops_at_first_overflow:
  assumes "95 \<le> length (glyphs font)" "list_all printable cs"
  shows "render_text font cs d =
       draw_glyphs font (fitting font (unat (area_width d)) (unat (area_cursor d)) cs) d \<and>
     (unat (area_cursor d) + (\<Sum>c\<leftarrow>cs. glyph_advance font c) = unat (area_width d) \<longrightarrow>
        render_text font cs d = draw_glyphs font cs d) \<and>
     (\<forall>pre c post. cs = pre @ c # post \<and>
        unat (area_cursor d) + (\<Sum>c\<leftarrow>pre. glyph_advance font c) \<le> unat (area_width d) \<and>
        unat (area_width d) < unat (area_cursor d) + (\<Sum>c\<leftarrow>pre. glyph_advance font c) + glyph_advance font c \<longrightarrow>
        render_text font cs d = draw_glyphs font pre d)"
proof -
  note eq = render_text_fitting[OF assms, of d]
  show ?thesis
  proof (intro conjI allI impI)
    show "render_text font cs d =
       draw_glyphs font (fitting font (unat (area_width d)) (unat (area_cursor d)) cs) d"
      by (rule eq)
  next
    assume "unat (area_cursor d) + (\<Sum>c\<leftarrow>cs. glyph_advance font c) = unat (area_width d)"
    then have "fitting font (unat (area_width d)) (unat (area_cursor d)) cs = cs"
      by (intro fitting_all) simp
    with eq show "render_text font cs d = draw_glyphs font cs d" by simp
  next
    fix pre c post
    assume a: "cs = pre @ c # post \<and>
        unat (area_cursor d) + (\<Sum>c\<leftarrow>pre. glyph_advance font c) \<le> unat (area_width d) \<and>
        unat (area_width d) < unat (area_cursor d) + (\<Sum>c\<leftarrow>pre. glyph_advance font c) + glyph_advance font c"
    then have "fitting font (unat (area_width d)) (unat (area_cursor d)) (pre @ c # post) = pre"
      by (intro fitting_stops) simp_all
    with eq a show "render_text font cs d = draw_glyphs font pre d" by simp
  qed
qed

lemma renderChar_blank:
  "renderChar buf demo_font wd x y 0x41 color = Inr (10, buf)"
  "renderChar buf demo_font wd x y 0x42 color = Inr (10, buf)"
  by (simp_all add: renderChar_def getGlyph_def glyph_index_def demo_font_def demo_glyph_def)

theorem render_text_stops_at_first_overflow_witness:
  "95 \<le> length (glyphs demo_font) \<and> list_all printable [0x41, 0x42] \<and>
   render_text demo_font [0x41, 0x42] (demo_display\<lparr>area_width := 20\<rparr>) =
     draw_glyphs demo_font [0x41, 0x42] (demo_display\<lparr>area_width := 20\<rparr>) \<and>
   draw_glyphs demo_font [0x41, 0x42] (demo_display\<lparr>area_width := 20\<rparr>) =
     Inr (demo_display\<lparr>area_width := 20, area_cursor := 20\<rparr>) \<and>
   render_text demo_font [0x41, 0x42] (demo_display\<lparr>area_width := 19\<rparr>) =
     draw_glyphs demo_font [0x41] (demo_display\<lparr>area_width := 19\<rparr>) \<and>
   draw_glyphs demo_font [0x41] (demo_display\<lparr>area_width := 19\<rparr>) =
     Inr (demo_display\<lparr>area_width := 19, area_cursor := 10\<rparr>)"
proof -
  have h1: "95 \<le> length (glyphs demo_font)" by (simp add: demo_font_def)
  have h2: "list_all printable [0x41, 0x42]" by (simp add: printable_def)
  have ga: "glyph_advance demo_font 0x41 = 10" "glyph_advance demo_font 0x42 = 10"
    by (simp_all add: glyph_advance_def glyph_index_def demo_font_def demo_glyph_def)
  note t20 = render_text_stops_at_first_overflow[OF h1 h2, of "demo_display\<lparr>area_width := 20\<rparr>",
      THEN conjunct2, THEN conjunct1, rule_format]
  note t19 = render_text_stops_at_first_overflow[OF h1 h2, of "demo_display\<lparr>area_width := 19\<rparr>",
      THEN conjunct2, THEN conjunct2, rule_format, of "[0x41]" "0x42" "[]"]
  have a: "render_text demo_font [0x41, 0x42] (demo_display\<lparr>area_width := 20\<rparr>) =
     draw_glyphs demo_font [0x41, 0x42] (demo_display\<lparr>area_width := 20\<rparr>)"
    by (rule t20) (simp add: ga demo_display_def)
  have b: "render_text demo_font [0x41, 0x42] (demo_display\<lparr>area_width := 19\<rparr>) =
     draw_glyphs demo_font [0x41] (demo_display\<lparr>area_width := 19\<rparr>)"
    by (rule t19) (simp add: ga demo_display_def)
  have c: "draw_glyphs demo_font [0x41, 0x42] (demo_display\<lparr>area_width := 20\<rparr>) =
     Inr (demo_display\<lparr>area_width := 20, area_cursor := 20\<rparr>)"
    by (simp add: modify_buffer_def renderChar_blank demo_display_def)
  have e: "draw_glyphs demo_font [0x41] (demo_display\<lparr>area_width := 19\<rparr>) =
     Inr (demo_display\<lparr>area_width := 19, area_cursor := 10\<rparr>)"
    by (simp add: modify_buffer_def renderChar_blank demo_display_def)
  from h1 h2 a b c e show ?thesis by simp
qed

section \<open>The length of the text and its trailing spaces\<close>

lemma strip_trailing_step:
  "char_at s (uint len - 1) = Inr 0x20 \<Longrightarrow> strip_trailing s len = strip_trailing s (len - 1)"
  by (subst strip_trailing.simps) simp

lemma strip_trailing_stop:
  "char_at s (uint len - 1) = Inr c \<Longrightarrow> c \<noteq> 0x20 \<Longrightarrow> strip_trailing s len = Some (Inr len)"
  by (subst strip_trailing.simps) simp

lemma strip_trailing_fault:
  "char_at s (uint len - 1) = Inl e \<Longrightarrow> strip_trailing s len = Some (Inl e)"
  by (subst strip_trailing.simps) simp

lemma uint_of_nat_u8: "k \<le> 255 \<Longrightarrow> uint (of_nat k :: 8 word) = int k"
proof -
  assume "k \<le> 255"
  then have "unat (of_nat k :: 8 word) = k" by (rule unat_of_nat_u8)
  then show ?thesis by (metis uint_nat)
qed

lemma strip_trailing_spaces:
  "k \<le> 255 \<Longrightarrow> (\<forall>j<k. char_at s (int j) = Inr 0x20) \<Longrightarrow>
   strip_trailing s (of_nat k) = strip_trailing s 0"
proof (induction k)
  case 0
  then show ?case by simp
next
  case (Suc k)
  have "uint (of_nat (Suc k) :: 8 word) - 1 = int k"
    using Suc.prems(1) by (simp only: uint_of_nat_u8)
  then have "char_at s (uint (of_nat (Suc k) :: 8 word) - 1) = Inr 0x20"
    using Suc.prems(2) by simp
  then have "strip_trailing s (of_nat (Suc k)) = strip_trailing s (of_nat (Suc k) - 1)"
    by (rule strip_trailing_step)
  also have "(of_nat (Suc k) :: 8 word) - 1 = of_nat k" by simp
  finally show ?case using Suc by simp
qed

lemma strip_trailing_zero:
  "strip_trailing s 0 =
     (case char_at s (- 1) of
        Inl e \<Rightarrow> Some (Inl e)
      | Inr c \<Rightarrow> if c = 0x20 then strip_trailing s 255 else Some (Inr 0))"
proof -
  have m: "(0 :: uint8_t) - 1 = 255" by simp
  have z: "uint (0 :: uint8_t) - 1 = - 1" by simp
  show ?thesis by (subst strip_trailing.simps) (simp only: m z)
qed

lemma clamp32:
  fixes len :: uint8_t
  shows "(if 32 < len then 32 else len) = of_nat (min (unat len) 32)"
proof (cases "32 < len")
  case True
  then have "32 < unat len" by (simp add: word_less_nat_alt)
  with True show ?thesis by (simp add: min_def)
next
  case False
  then have "unat len \<le> 32" by (simp add: word_less_nat_alt)
  with False show ?thesis by (simp add: min_def)
qed

text \<open>
  C10 (as amended). For a string whose length is not a multiple of 256 and whose first
  min(length, 32) bytes are all spaces, the loop that strips trailing spaces takes the length
  down to 0 and then reads \<open>s[-1]\<close>: a fault where the string starts its array; where the
  byte before the string is a space, \<open>len\<close> wraps around to 255 and the loop goes on from
  there; only where that byte is not a space does the loop end with length 0.
\<close>

theorem text_length_all_spaces:
  assumes "string_at s cs" "length cs mod 256 \<noteq> 0"
    "list_all (\<lambda>c. c = 0x20) (take (min (length cs) 32) cs)"
  shows "text_length s =
      (case char_at s (- 1) of
         Inl e \<Rightarrow> Some (Inl e)
       | Inr c \<Rightarrow>
           if c = 0x20 then pseq (strip_trailing s 255) (\<lambda>len. Some (Inr (Some len)))
           else Some (Inr (Some 0))) \<and>
    (start s = 0 \<longrightarrow> text_length s = Some (Inl (StringIndex (- 1))))"
proof -
  let ?n = "length cs"
  let ?len = "of_nat ?n :: uint8_t"
  let ?m = "min (unat ?len) 32"
  have sl: "strlen s = Inr ?n" by (rule string_at_strlen[OF assms(1)])
  have ul: "unat ?len = ?n mod 256" by (simp add: unat_of_nat)
  have nz: "?len \<noteq> 0" using ul assms(2) by (metis unat_0)
  have "?n mod 256 \<le> ?n" by (rule mod_less_eq_dividend)
  then have m_le: "?m \<le> ?n" "?m \<le> 32" unfolding ul by linarith+
  have spaces: "\<forall>j<?m. char_at s (int j) = Inr 0x20"
  proof (intro allI impI)
    fix j assume j: "j < ?m"
    with m_le have jn: "j < ?n" "j < min ?n 32" by linarith+
    then have "take (min ?n 32) cs ! j = 0x20"
      using assms(3) by (simp add: list_all_length)
    with jn have "cs ! j = 0x20" by simp
    with string_at_char[OF assms(1) jn(1)] show "char_at s (int j) = Inr 0x20" by simp
  qed
  have "strip_trailing s (of_nat ?m) = strip_trailing s 0"
    using m_le(2) by (intro strip_trailing_spaces spaces) simp
  then have st: "strip_trailing s (if 32 < ?len then 32 else ?len) = strip_trailing s 0"
    by (simp only: clamp32)
  have tl: "text_length s = pseq (strip_trailing s 0) (\<lambda>len. Some (Inr (Some len)))"
    using sl nz st by (simp add: text_length_def Let_def)
  have first: "text_length s =
      (case char_at s (- 1) of
         Inl e \<Rightarrow> Some (Inl e)
       | Inr c \<Rightarrow>
           if c = 0x20 then pseq (strip_trailing s 255) (\<lambda>len. Some (Inr (Some len)))
           else Some (Inr (Some 0)))"
    unfolding tl strip_trailing_zero by (simp split: sum.splits)
  moreover have "text_length s = Some (Inl (StringIndex (- 1)))" if "start s = 0"
    unfolding first using that by (simp add: char_at_def)
  ultimately show ?thesis by blast
qed

theorem text_length_all_spaces_witness:
  "string_at (literal [0x20]) [0x20] \<and> length [0x20 :: uint8_t] mod 256 \<noteq> 0 \<and>
   text_length (literal [0x20]) = Some (Inl (StringIndex (- 1))) \<and>
   string_at padded [0x20] \<and> char_at padded (- 1) = Inr 0x20 \<and>
   text_length padded = pseq (strip_trailing padded 255) (\<lambda>len. Some (Inr (Some len))) \<and>
   text_length padded = Some (Inl (StringIndex 254))"
proof -
  have h1: "string_at (literal [0x20]) [0x20]" by (simp add: string_at_def literal_def)
  have h2: "length [0x20 :: uint8_t] mod 256 \<noteq> 0" by simp
  have h3: "list_all (\<lambda>c. c = 0x20) (take (min (length [0x20 :: uint8_t]) 32) [0x20 :: uint8_t])" by simp
  have h4: "start (literal [0x20]) = 0" by (simp add: literal_def)
  have p1: "string_at padded [0x20]" by (simp add: string_at_def padded_def)
  have p2: "char_at padded (- 1) = Inr 0x20" by (simp add: char_at_def padded_def)
  have p3: "strip_trailing padded 255 = Some (Inl (StringIndex 254))"
    by (subst strip_trailing.simps) (simp add: char_at_def padded_def)
  from text_length_all_spaces[OF h1 h2 h3] h4
  have a: "text_length (literal [0x20]) = Some (Inl (StringIndex (- 1)))" by blast
  from text_length_all_spaces[OF p1 h2 h3] p2
  have b: "text_length padded = pseq (strip_trailing padded 255) (\<lambda>len. Some (Inr (Some len)))"
    by simp
  from a b h1 h2 p1 p2 p3 show ?thesis by simp
qed

text \<open>
  The claim as written covers every non-empty string. The length of a string of 256 spaces is
  stored in the byte \<open>len\<close> as 0, and \<open>print\<close> returns before the loop.
\<close>

theorem text_length_counterexample:
  "string_at (literal (replicate 256 0x20)) (replicate 256 0x20) \<and>
   list_all (\<lambda>c. c = 0x20) (take (min (length (replicate 256 (0x20 :: uint8_t))) 32) (replicate 256 (0x20 :: uint8_t))) \<and>
   text_length (literal (replicate 256 0x20)) = Some (Inr None) \<and>
   print idle_bus demo_fonts (Some (literal (replicate 256 0x20))) demo_display = Some (Inr demo_display)"
proof -
  have h1: "string_at (literal (replicate 256 0x20)) (replicate 256 0x20)"
    by (rule string_at_literal) simp
  have h2: "list_all (\<lambda>c. c = 0x20) (take (min (length (replicate 256 (0x20 :: uint8_t))) 32) (replicate 256 (0x20 :: uint8_t)))"
    by (simp add: list_all_length)
  have sl: "strlen (literal (replicate 256 0x20)) = Inr 256"
    using string_at_strlen[OF h1] by simp
  have tl: "text_length (literal (replicate 256 0x20)) = Some (Inr None)"
    by (simp add: text_length_def sl)
  have ai: "await_idle idle_bus demo_display = Some (Inr demo_display)"
    by (subst await_idle.simps) (simp add: demo_display_def)
  have "print idle_bus demo_fonts (Some (literal (replicate 256 0x20))) demo_display = Some (Inr demo_display)"
    by (simp add: print_def ai tl)
  with h1 h2 tl show ?thesis by simp
qed

section \<open>The buffer is not written while the busy flag is set\<close>

lemma pseq_safe:
  assumes "m \<noteq> Some (Inl WriteWhileBusy)"
    and "\<And>x. m = Some (Inr x) \<Longrightarrow> f x \<noteq> Some (Inl WriteWhileBusy)"
  shows "pseq m f \<noteq> Some (Inl WriteWhileBusy)"
  using assms by (auto simp: pseq_def split: option.splits sum.splits)

lemma seq_safe:
  assumes "m \<noteq> Inl WriteWhileBusy"
    and "\<And>x. m = Inr x \<Longrightarrow> f x \<noteq> Inl WriteWhileBusy"
  shows "seq m f \<noteq> Inl WriteWhileBusy"
  using assms by (cases m) auto

lemma loop_cases:
  assumes "loop spi d = Some r"
  shows "\<exists>n b. r = Inr (d\<lparr>polls := n, busy := b\<rparr>) \<and> (b \<longrightarrow> busy d)"
proof (cases "busy d")
  case False
  with assms have "r = Inr d" by (simp add: loop_def)
  moreover have "d = d\<lparr>polls := polls d, busy := False\<rparr>" using False by simp
  ultimately show ?thesis by metis
next
  case True
  show ?thesis
  proof (cases "spi (polls d)")
    case T2: True
    with True assms have "r = Inr (d\<lparr>polls := Suc (polls d)\<rparr>)" by (simp add: loop_def)
    moreover have "d\<lparr>polls := Suc (polls d)\<rparr> = d\<lparr>polls := Suc (polls d), busy := True\<rparr>"
      using True by simp
    ultimately show ?thesis using True by metis
  next
    case False
    with True assms have
      "pseq (finishWrite spi (d\<lparr>polls := Suc (polls d)\<rparr>)) (\<lambda>d. Some (Inr (d\<lparr>busy := False\<rparr>))) = Some r"
      by (simp add: loop_def)
    then show ?thesis
    proof (cases rule: pseq_Some_cases)
      case (1 e)
      with finishWrite_result[OF 1(1)] show ?thesis by simp
    next
      case (2 x)
      from finishWrite_result[OF 2(1)] obtain n where "x = d\<lparr>polls := Suc (polls d)\<rparr>\<lparr>polls := n\<rparr>"
        by (auto simp: bus_only_def)
      with 2(2) have "r = Inr (d\<lparr>polls := n, busy := False\<rparr>)" by simp
      then show ?thesis by blast
    qed
  qed
qed

lemma await_idle_result:
  assumes "await_idle spi d = Some r"
  shows "\<exists>n. r = Inr (d\<lparr>polls := n, busy := False\<rparr>)"
proof (rule await_idle.raw_induct[OF _ assms])
  fix f spi d r
  assume IH: "\<And>spi d r. f spi d = Some r \<Longrightarrow> \<exists>n. r = Inr (d\<lparr>polls := n, busy := False\<rparr>)"
    and eq: "(if busy d then pseq (loop spi d) (\<lambda>d'. f spi d') else Some (Inr d)) = Some r"
  show "\<exists>n. r = Inr (d\<lparr>polls := n, busy := False\<rparr>)"
  proof (cases "busy d")
    case False
    with eq have "r = Inr d" by simp
    moreover have "d = d\<lparr>polls := polls d, busy := False\<rparr>" using False by simp
    ultimately show ?thesis by metis
  next
    case True
    with eq have "pseq (loop spi d) (\<lambda>d'. f spi d') = Some r" by simp
    then show ?thesis
    proof (cases rule: pseq_Some_cases)
      case (1 e)
      with loop_cases[OF 1(1)] show ?thesis by auto
    next
      case (2 x)
      from loop_cases[OF 2(1)] obtain n b where x: "x = d\<lparr>polls := n, busy := b\<rparr>" by auto
      from IH[OF 2(2)] obtain n' where "r = Inr (x\<lparr>polls := n', busy := False\<rparr>)" by auto
      with x have "r = Inr (d\<lparr>polls := n', busy := False\<rparr>)" by simp
      then show ?thesis by blast
    qed
  qed
qed

lemma await_idle_not_busy: "\<not> busy d \<Longrightarrow> await_idle spi d = Some (Inr d)"
  by (subst await_idle.simps) simp

lemma writeReset_result:
  assumes "writeReset spi d = Some r"
  shows "\<exists>d'. r = Inr d' \<and> bus_only d d'"
  using assms unfolding writeReset_def
  by (elim pseq_bus_only[rotated 2]) (auto dest: writeCommand_result)

lemma writeSetOrientation_result:
  assumes "writeSetOrientation spi angle d = Some r"
  shows "\<exists>d'. r = Inr d' \<and> busy d' = busy d \<and> buffer d' = buffer d"
proof -
  from assms obtain d0 where w: "writeCommand spi d0 = Some r" and b: "busy d0 = busy d" "buffer d0 = buffer d"
    by (auto simp: writeSetOrientation_def Let_def split: if_splits)
  from writeCommand_result[OF w] obtain d' where "r = Inr d'" "bus_only d0 d'" by blast
  with b bus_only_fields[of d0 d'] show ?thesis by simp
qed

lemma fill_cells_safe:
  "fill_cells i len v buf \<noteq> Some (Inl WriteWhileBusy)"
  using fill_cells_result[of i len v buf "Inl WriteWhileBusy"] by auto

lemma write_bursts_safe:
  "write_bursts spi n len d \<noteq> Some (Inl WriteWhileBusy)"
  using write_bursts_result[of spi n len d "Inl WriteWhileBusy"] by auto

lemma write_buffer_safe:
  "write_buffer spi len d \<noteq> Some (Inl WriteWhileBusy)"
  using write_buffer_result[of spi len d "Inl WriteWhileBusy"] by auto

lemma modify_buffer_p_safe:
  assumes "\<not> busy d" "f (buffer d) \<noteq> Some (Inl WriteWhileBusy)"
  shows "modify_buffer_p d f \<noteq> Some (Inl WriteWhileBusy)"
  using assms by (auto simp: modify_buffer_p_def split: option.splits sum.splits)

lemma modify_buffer_p_busy:
  "modify_buffer_p d f = Some (Inr d') \<Longrightarrow> busy d' = busy d"
  by (auto simp: modify_buffer_p_def split: if_splits option.splits sum.splits)

lemma writeFillRectangle_safe:
  assumes "\<not> busy d"
  shows "writeFillRectangle spi x y w h color d \<noteq> Some (Inl WriteWhileBusy)"
  unfolding writeFillRectangle_def Let_def
proof (rule pseq_safe)
  show "writeSetWindow spi x y w h d \<noteq> Some (Inl WriteWhileBusy)"
    using writeSetWindow_result[of spi x y w h d] by auto
next
  fix d1 assume "writeSetWindow spi x y w h d = Some (Inr d1)"
  from writeSetWindow_result[OF this] have b: "bus_only d d1" by simp
  then have nb: "\<not> busy d1" using assms bus_only_fields(2)[OF b] by simp
  show "pseq (modify_buffer_p d1 (fill_cells 0 (min (unat w * unat h mod 2 ^ 32) (unat (hardware_width d1) * row_size)) (bswap16 color)))
          (write_bursts spi (unat w * unat h mod 2 ^ 32) (min (unat w * unat h mod 2 ^ 32) (unat (hardware_width d1) * row_size)))
        \<noteq> Some (Inl WriteWhileBusy)"
    by (intro pseq_safe modify_buffer_p_safe nb fill_cells_safe write_bursts_safe)
qed

lemma writeFillRectangle_busy:
  "writeFillRectangle spi x y w h color d = Some (Inr d') \<Longrightarrow> busy d' = busy d"
  using writeFillRectangle_result by blast

lemma await_idle_safe: "await_idle spi d \<noteq> Some (Inl WriteWhileBusy)"
  using await_idle_result[of spi d "Inl WriteWhileBusy"] by auto

lemma await_idle_idle: "await_idle spi d = Some (Inr d') \<Longrightarrow> \<not> busy d'"
  using await_idle_result[of spi d "Inr d'"] by auto

lemma fillRectangle_safe:
  "fillRectangle spi x y w h color d \<noteq> Some (Inl WriteWhileBusy)"
  unfolding fillRectangle_def prepareWrite_def
proof (intro pseq_safe await_idle_safe)
  fix d1 d2 assume "await_idle spi d1 = Some (Inr d2)"
  then have "\<not> busy d2" by (rule await_idle_idle)
  then show "writeFillRectangle spi x y w h color d2 \<noteq> Some (Inl WriteWhileBusy)"
    by (rule writeFillRectangle_safe)
qed simp

lemma reset_safe:
  "reset spi orientation color d \<noteq> Some (Inl WriteWhileBusy)"
  unfolding reset_def prepareWrite_def
proof (intro pseq_safe await_idle_safe)
  fix d1 assume a: "await_idle spi (d\<lparr>busy := False\<rparr>) = Some (Inr d1)"
  show "writeReset spi d1 \<noteq> Some (Inl WriteWhileBusy)"
    using writeReset_result[of spi d1] by auto
  fix d2 assume b: "writeReset spi d1 = Some (Inr d2)"
  show "writeSetOrientation spi orientation d2 \<noteq> Some (Inl WriteWhileBusy)"
    using writeSetOrientation_result[of spi orientation d2] by auto
  fix d3 assume c: "writeSetOrientation spi orientation d2 = Some (Inr d3)"
  have "\<not> busy d1" using a by (rule await_idle_idle)
  moreover from writeReset_result[OF b] have "busy d2 = busy d1" by (auto dest: bus_only_fields(2))
  moreover from writeSetOrientation_result[OF c] have "busy d3 = busy d2" by auto
  ultimately have "\<not> busy d3" by simp
  then show "writeFillRectangle spi 0 0 (pixels_width d3) (pixels_height d3) color d3 \<noteq> Some (Inl WriteWhileBusy)"
    by (rule writeFillRectangle_safe)
  fix d4
  show "finishWrite spi d4 \<noteq> Some (Inl WriteWhileBusy)"
    using finishWrite_result[of spi d4] by auto
qed

lemma for_each_safe:
  assumes "\<And>i s. body i s \<noteq> Inl WriteWhileBusy"
  shows "for_each body is s \<noteq> Inl WriteWhileBusy"
  using assms by (induction "is" arbitrary: s) (auto split: sum.splits)

lemma buffer_set_safe: "buffer_set i v buf \<noteq> Inl WriteWhileBusy"
  by (simp add: buffer_set_def)

lemma modify_buffer_safe:
  assumes "\<not> busy d" "f (buffer d) \<noteq> Inl WriteWhileBusy"
  shows "modify_buffer d f \<noteq> Inl WriteWhileBusy"
  using assms by (auto simp: modify_buffer_def split: sum.splits)

lemma modify_buffer_busy:
  "modify_buffer d f = Inr (r, d') \<Longrightarrow> busy d' = busy d"
  by (auto simp: modify_buffer_def split: if_splits sum.splits)

lemma initializeBuffer_safe:
  assumes "\<not> busy d"
  shows "initializeBuffer d \<noteq> Inl WriteWhileBusy"
  unfolding initializeBuffer_def
  by (intro seq_safe modify_buffer_safe assms for_each_safe buffer_set_safe) auto

lemma initializeBuffer_busy:
  "initializeBuffer d = Inr d' \<Longrightarrow> busy d' = busy d"
  by (auto simp: initializeBuffer_def seq_Inr_iff dest: modify_buffer_busy)

lemma getGlyph_safe: "getGlyph font c \<noteq> Inl WriteWhileBusy"
  by (simp add: getGlyph_def Let_def)

lemma seq_Inl_iff: "seq m f = Inl e \<longleftrightarrow> m = Inl e \<or> (\<exists>x. m = Inr x \<and> f x = Inl e)"
  by (cases m) auto

lemma renderChar_pixel_safe:
  "renderChar_pixel font wd x y color glyph iy ix st \<noteq> Inl WriteWhileBusy"
  by (auto simp: renderChar_pixel_def seq_Inl_iff buffer_set_def Let_def split: prod.splits if_splits)

lemma renderChar_safe:
  "renderChar buf font wd x y c color \<noteq> Inl WriteWhileBusy"
  unfolding renderChar_def
  by (intro seq_safe getGlyph_safe for_each_safe renderChar_pixel_safe) auto

lemma drawChar_safe:
  "drawChar spi fonts c d \<noteq> Some (Inl WriteWhileBusy)"
  unfolding drawChar_def
proof (intro pseq_safe await_idle_safe)
  fix d1 assume "await_idle spi d = Some (Inr d1)"
  then have nb: "\<not> busy d1" by (rule await_idle_idle)
  have "seq (if area_cursor d1 = 0 then initializeBuffer d1 else Inr d1)
     (\<lambda>d. seq (modify_buffer d (\<lambda>buf. renderChar buf (fontDefault fonts) (ucast (area_width d))
                  (area_cursor d) baseline c (area_foreground d)))
           (\<lambda>(adv, d). Inr (d\<lparr>area_cursor := area_cursor d + adv\<rparr>))) \<noteq> Inl WriteWhileBusy"
  proof (intro seq_safe)
    show "(if area_cursor d1 = 0 then initializeBuffer d1 else Inr d1) \<noteq> Inl WriteWhileBusy"
      using initializeBuffer_safe[OF nb] by simp
  next
    fix d2 assume "(if area_cursor d1 = 0 then initializeBuffer d1 else Inr d1) = Inr d2"
    then have "\<not> busy d2" using nb initializeBuffer_busy[of d1 d2] by (auto split: if_splits)
    then show "modify_buffer d2 (\<lambda>buf. renderChar buf (fontDefault fonts) (ucast (area_width d2))
                  (area_cursor d2) baseline c (area_foreground d2)) \<noteq> Inl WriteWhileBusy"
      by (intro modify_buffer_safe renderChar_safe)
  qed auto
  then show "Some (seq (if area_cursor d1 = 0 then initializeBuffer d1 else Inr d1)
     (\<lambda>d. seq (modify_buffer d (\<lambda>buf. renderChar buf (fontDefault fonts) (ucast (area_width d))
                  (area_cursor d) baseline c (area_foreground d)))
           (\<lambda>(adv, d). Inr (d\<lparr>area_cursor := area_cursor d + adv\<rparr>)))) \<noteq> Some (Inl WriteWhileBusy)"
    by simp
qed

lemma char_at_safe: "char_at s i \<noteq> Inl WriteWhileBusy"
  by (simp add: char_at_def Let_def)

lemma strlen_safe: "strlen s \<noteq> Inl WriteWhileBusy"
  by (simp add: strlen_def split: option.splits)

lemma strip_trailing_result:
  assumes "strip_trailing s len = Some r"
  shows "r \<noteq> Inl WriteWhileBusy"
proof (rule strip_trailing.raw_induct[OF _ assms])
  fix f s len r
  assume IH: "\<And>s len r. f s len = Some r \<Longrightarrow> r \<noteq> Inl WriteWhileBusy"
    and eq: "(case char_at s (uint len - 1) of Inl e \<Rightarrow> Some (Inl e)
              | Inr c \<Rightarrow> if c = 0x20 then f s (len - 1) else Some (Inr len)) = Some r"
  show "r \<noteq> Inl WriteWhileBusy"
  proof (cases "char_at s (uint len - 1)")
    case (Inl e)
    with eq char_at_safe[of s "uint len - 1"] show ?thesis by auto
  next
    case (Inr c)
    with eq IH show ?thesis by (auto split: if_splits)
  qed
qed

lemma strip_trailing_safe: "strip_trailing s len \<noteq> Some (Inl WriteWhileBusy)"
  using strip_trailing_result by blast

lemma text_length_safe: "text_length s \<noteq> Some (Inl WriteWhileBusy)"
proof (cases "strlen s")
  case (Inl e)
  with strlen_safe[of s] show ?thesis by (auto simp: text_length_def)
next
  case (Inr n)
  show ?thesis
  proof (cases "(of_nat n :: uint8_t) = 0")
    case True
    with Inr show ?thesis by (simp add: text_length_def)
  next
    case False
    have "pseq (strip_trailing s (if 32 < (of_nat n :: uint8_t) then 32 else of_nat n))
        (\<lambda>len. Some (Inr (Some len))) \<noteq> Some (Inl WriteWhileBusy)"
      by (intro pseq_safe strip_trailing_safe) simp
    with Inr False show ?thesis by (simp add: text_length_def Let_def)
  qed
qed

lemma getTextWidth_loop_safe:
  "getTextWidth_loop s font is w r kept \<noteq> Inl WriteWhileBusy"
proof (induction "is" arbitrary: w r kept)
  case Nil
  then show ?case by simp
next
  case (Cons i rest)
  show ?case
    using Cons.IH char_at_safe[of s "int i"] getGlyph_safe[of font]
    by (auto simp: getTextWidth_loop.simps(2) split: sum.splits)
qed

lemma getTextWidth_safe: "getTextWidth s len font \<noteq> Inl WriteWhileBusy"
  by (simp add: getTextWidth_def getTextWidth_loop_safe)

lemma fit_font_safe: "fit_font fonts s len aw \<noteq> Inl WriteWhileBusy"
  using getTextWidth_safe[of s len "fontDefault fonts"] getTextWidth_safe[of s len "fontCondensed fonts"]
    getTextWidth_safe[of s len "fontCondensedSmall fonts"]
  by (auto simp: fit_font_refines font_escalation_def seq_Inl_iff split: if_splits)

lemma render_text_safe:
  "\<not> busy d \<Longrightarrow> render_text font cs d \<noteq> Inl WriteWhileBusy"
proof (induction cs arbitrary: d)
  case Nil
  then show ?case by simp
next
  case (Cons c rest)
  let ?m = "modify_buffer d (\<lambda>buf. renderChar buf font (ucast (area_width d)) (area_cursor d) baseline c (area_foreground d))"
  have m: "?m \<noteq> Inl WriteWhileBusy"
    by (intro modify_buffer_safe renderChar_safe Cons.prems)
  have next_ok: "render_text font rest (d'\<lparr>area_cursor := area_cursor d' + a\<rparr>) \<noteq> Inl WriteWhileBusy"
    if "?m = Inr (r, d')" for r d' a
  proof -
    from modify_buffer_busy[OF that] Cons.prems have "\<not> busy (d'\<lparr>area_cursor := area_cursor d' + a\<rparr>)" by simp
    then show ?thesis by (rule Cons.IH)
  qed
  show ?case
    using m next_ok getGlyph_safe[of font c]
    by (auto simp: Let_def split: sum.splits prod.splits)
qed

lemma render_text_busy:
  "render_text font cs d = Inr d' \<Longrightarrow> busy d' = busy d"
proof (induction cs arbitrary: d)
  case Nil
  then show ?case by simp
next
  case (Cons c rest)
  let ?m = "modify_buffer d (\<lambda>buf. renderChar buf font (ucast (area_width d)) (area_cursor d) baseline c (area_foreground d))"
  from Cons.prems show ?case
  proof (cases "getGlyph font c")
    case (Inl e)
    with Cons.prems show ?thesis by simp
  next
    case (Inr g)
    show ?thesis
    proof (cases "uint (area_width d) < uint (area_cursor d) + uint (ucast (advance g) :: uint16_t)")
      case True
      with Inr Cons.prems show ?thesis by (simp add: Let_def)
    next
      case False
      with Inr Cons.prems obtain r d1 where m: "?m = Inr (r, d1)"
        and rec: "render_text font rest (d1\<lparr>area_cursor := area_cursor d1 + ucast (advance g)\<rparr>) = Inr d'"
        by (auto simp: Let_def split: sum.splits)
      from Cons.IH[OF rec] modify_buffer_busy[OF m] show ?thesis by simp
    qed
  qed
qed

lemma writeSetWindow_safe: "writeSetWindow spi x y w h d \<noteq> Some (Inl WriteWhileBusy)"
  using writeSetWindow_result[of spi x y w h d "Inl WriteWhileBusy"] by auto

lemma flushBuffer_safe: "flushBuffer spi d \<noteq> Some (Inl WriteWhileBusy)"
  unfolding flushBuffer_def prepareWrite_def
  by (intro pseq_safe await_idle_safe write_buffer_safe writeSetWindow_safe) simp

lemma print_text_safe:
  assumes "\<not> busy d"
  shows "seq (fit_font fonts s len (area_width d)) (\<lambda>(font, textWidth, text).
           seq (initializeBuffer (d\<lparr>area_cursor := justify_cursor (area_justify d) (area_width d) textWidth\<rparr>))
             (\<lambda>d. seq (render_text (deref fonts font) text d) (\<lambda>d. Inr (d\<lparr>area_cursor := 0\<rparr>))))
         \<noteq> Inl WriteWhileBusy"
proof (intro seq_safe fit_font_safe)
  fix x assume "fit_font fonts s len (area_width d) = Inr x"
  obtain font tw cs where x: "x = (font, tw, cs)" by (cases x)
  let ?d1 = "d\<lparr>area_cursor := justify_cursor (area_justify d) (area_width d) tw\<rparr>"
  have nb: "\<not> busy ?d1" using assms by simp
  have "seq (initializeBuffer ?d1)
          (\<lambda>d. seq (render_text (deref fonts font) cs d) (\<lambda>d. Inr (d\<lparr>area_cursor := 0\<rparr>)))
        \<noteq> Inl WriteWhileBusy"
  proof (intro seq_safe initializeBuffer_safe nb)
    fix d2 assume "initializeBuffer ?d1 = Inr d2"
    from initializeBuffer_busy[OF this] nb have "\<not> busy d2" by simp
    then show "render_text (deref fonts font) cs d2 \<noteq> Inl WriteWhileBusy"
      by (rule render_text_safe)
  qed simp
  then show "(case x of (font, textWidth, text) \<Rightarrow>
           seq (initializeBuffer (d\<lparr>area_cursor := justify_cursor (area_justify d) (area_width d) textWidth\<rparr>))
             (\<lambda>d. seq (render_text (deref fonts font) text d) (\<lambda>d. Inr (d\<lparr>area_cursor := 0\<rparr>))))
         \<noteq> Inl WriteWhileBusy"
    by (simp add: x)
qed

lemma print_safe: "print spi fonts sp d \<noteq> Some (Inl WriteWhileBusy)"
  unfolding print_def
proof (intro pseq_safe await_idle_safe)
  fix d1 assume "await_idle spi d = Some (Inr d1)"
  then have nb: "\<not> busy d1" by (rule await_idle_idle)
  show "(case sp of
           None \<Rightarrow> pseq (Some (if area_cursor d1 = 0 then initializeBuffer d1 else Inr d1)) (flushBuffer spi)
         | Some s \<Rightarrow>
             pseq (text_length s) (\<lambda>len.
               case len of
                 None \<Rightarrow> Some (Inr d1)
               | Some len \<Rightarrow>
                   pseq (Some (
                     seq (fit_font fonts s len (area_width d1)) (\<lambda>(font, textWidth, text).
                     seq (initializeBuffer
                            (d1\<lparr>area_cursor := justify_cursor (area_justify d1) (area_width d1) textWidth\<rparr>))
                       (\<lambda>d.
                     seq (render_text (deref fonts font) text d) (\<lambda>d.
                     Inr (d\<lparr>area_cursor := 0\<rparr>))))))
                     (flushBuffer spi))) \<noteq> Some (Inl WriteWhileBusy)"
  proof (cases sp)
    case None
    have "pseq (Some (if area_cursor d1 = 0 then initializeBuffer d1 else Inr d1)) (flushBuffer spi)
        \<noteq> Some (Inl WriteWhileBusy)"
      using initializeBuffer_safe[OF nb] by (intro pseq_safe flushBuffer_safe) simp
    with None show ?thesis by simp
  next
    case (Some s)
    have "pseq (text_length s) (\<lambda>len.
               case len of
                 None \<Rightarrow> Some (Inr d1)
               | Some len \<Rightarrow>
                   pseq (Some (
                     seq (fit_font fonts s len (area_width d1)) (\<lambda>(font, textWidth, text).
                     seq (initializeBuffer
                            (d1\<lparr>area_cursor := justify_cursor (area_justify d1) (area_width d1) textWidth\<rparr>))
                       (\<lambda>d.
                     seq (render_text (deref fonts font) text d) (\<lambda>d.
                     Inr (d\<lparr>area_cursor := 0\<rparr>))))))
                     (flushBuffer spi)) \<noteq> Some (Inl WriteWhileBusy)"
    proof (intro pseq_safe text_length_safe)
      fix len
      show "(case len of
                 None \<Rightarrow> Some (Inr d1)
               | Some len \<Rightarrow>
                   pseq (Some (
                     seq (fit_font fonts s len (area_width d1)) (\<lambda>(font, textWidth, text).
                     seq (initializeBuffer
                            (d1\<lparr>area_cursor := justify_cursor (area_justify d1) (area_width d1) textWidth\<rparr>))
                       (\<lambda>d.
                     seq (render_text (deref fonts font) text d) (\<lambda>d.
                     Inr (d\<lparr>area_cursor := 0\<rparr>))))))
                     (flushBuffer spi)) \<noteq> Some (Inl WriteWhileBusy)"
      proof (cases len)
        case None
        then show ?thesis by simp
      next
        case (Some l)
        show ?thesis unfolding Some option.case
          using print_text_safe[OF nb, of fonts s l] by (intro pseq_safe flushBuffer_safe) simp
      qed
    qed
    with Some show ?thesis by simp
  qed
qed

lemma enable_safe: "enable spi on d \<noteq> Some (Inl WriteWhileBusy)"
  unfolding enable_def prepareWrite_def
proof (intro pseq_safe await_idle_safe)
  fix d1 show "writeCommand spi d1 \<noteq> Some (Inl WriteWhileBusy)"
    using writeCommand_result[of spi d1] by auto
  fix d2 show "finishWrite spi d2 \<noteq> Some (Inl WriteWhileBusy)"
    using finishWrite_result[of spi d2] by auto
qed

lemma sleep_safe: "sleep spi on d \<noteq> Some (Inl WriteWhileBusy)"
  unfolding sleep_def prepareWrite_def
proof (intro pseq_safe await_idle_safe)
  fix d1 show "writeCommand spi d1 \<noteq> Some (Inl WriteWhileBusy)"
    using writeCommand_result[of spi d1] by auto
  fix d2 show "finishWrite spi d2 \<noteq> Some (Inl WriteWhileBusy)"
    using finishWrite_result[of spi d2] by auto
qed

lemma loop_safe: "loop spi d \<noteq> Some (Inl WriteWhileBusy)"
  using loop_cases[of spi d "Inl WriteWhileBusy"] by auto

lemma exec_safe: "exec spi fonts c d \<noteq> Some (Inl WriteWhileBusy)"
  by (cases c)
    (simp_all add: reset_safe loop_safe fillRectangle_safe fillScreen_def drawChar_safe print_safe
      enable_safe sleep_safe)

lemma run_safe: "run spi fonts calls d \<noteq> Some (Inl WriteWhileBusy)"
proof (induction calls arbitrary: d)
  case Nil
  show ?case by simp
next
  case (Cons c rest)
  show ?case
    unfolding run.simps by (intro pseq_safe exec_safe Cons.IH)
qed

text \<open>
  C2. Whatever calls are made on a display, in whatever state it starts, whatever the bus
  answers and whatever the fonts are, no run ever enters a block that writes the pixel buffer
  while the busy flag is set: the monitor of \<open>modify_buffer\<close> never reports. A run that faults
  for another reason, or that waits for ever, has not written the buffer while busy either,
  since the model stops at the first report. The guard is the waiting loop with which
  \<open>print\<close>, \<open>drawChar\<close> and \<open>fillRectangle\<close> begin: when it returns, the busy flag is clear and
  the buffer is as it was.
\<close>

theorem buffer_never_written_while_busy:
  "run spi fonts calls d \<noteq> Some (Inl WriteWhileBusy) \<and>
   (\<forall>d'. await_idle spi d = Some (Inr d') \<longrightarrow> \<not> busy d' \<and> buffer d' = buffer d)"
proof -
  have "\<not> busy d' \<and> buffer d' = buffer d" if "await_idle spi d = Some (Inr d')" for d'
    using await_idle_result[OF that] by auto
  with run_safe show ?thesis by blast
qed

theorem buffer_never_written_while_busy_witness:
  "await_idle slow_bus (demo_display\<lparr>busy := True\<rparr>) = Some (Inr (demo_display\<lparr>busy := False, polls := 4\<rparr>)) \<and>
   \<not> busy (demo_display\<lparr>busy := False, polls := 4\<rparr>) \<and>
   buffer (demo_display\<lparr>busy := False, polls := 4\<rparr>) = buffer (demo_display\<lparr>busy := True\<rparr>)"
proof -
  have a: "await_idle slow_bus (demo_display\<lparr>busy := True\<rparr>) =
      Some (Inr (demo_display\<lparr>busy := False, polls := 4\<rparr>))"
    by (simp add: await_idle.simps loop_def finishWrite_def await_spi.simps slow_bus_def demo_display_def)
  from buffer_never_written_while_busy[of slow_bus demo_fonts "[]" "demo_display\<lparr>busy := True\<rparr>"] a
  show ?thesis by blast
qed

section \<open>Drawing character by character and printing a line\<close>

lemma for_each_append:
  "for_each body (xs @ ys) s = seq (for_each body xs s) (for_each body ys)"
  by (induction xs arbitrary: s) (auto split: sum.splits)

lemma for_each_noop:
  "(\<And>i s. body i s = Inr s) \<Longrightarrow> for_each body is s = Inr s"
  by (induction "is" arbitrary: s) auto

lemma list_update_middle:
  "length xs = n \<Longrightarrow> zs \<noteq> [] \<Longrightarrow> (xs @ ys @ zs)[n + length ys := v] = xs @ ys @ v # tl zs"
  by (cases zs) (simp_all add: list_update_append)

lemma row_fill:
  "base + n \<le> length buf \<Longrightarrow>
   for_each (\<lambda>x. buffer_set (int base + int x) v) [0 ..< n] buf =
   Inr (take base buf @ replicate n v @ drop (base + n) buf)"
proof (induction n)
  case 0
  then show ?case by simp
next
  case (Suc n)
  let ?b1 = "take base buf @ replicate n v @ drop (base + n) buf"
  have ih: "for_each (\<lambda>x. buffer_set (int base + int x) v) [0 ..< n] buf = Inr ?b1"
    using Suc by simp
  have len: "length ?b1 = length buf" using Suc.prems by simp
  have ne: "drop (base + n) buf \<noteq> []" using Suc.prems by simp
  have "buffer_set (int base + int n) v ?b1 = Inr (?b1[base + n := v])"
    using Suc.prems len by (simp add: buffer_set_def nat_add_distrib)
  also have "?b1[base + n := v] = take base buf @ replicate n v @ v # tl (drop (base + n) buf)"
    using list_update_middle[of "take base buf" base "drop (base + n) buf" "replicate n v" v] ne Suc.prems
    by simp
  also have "tl (drop (base + n) buf) = drop (base + Suc n) buf"
    by (simp add: drop_Suc tl_drop)
  also have "replicate n v @ v # drop (base + Suc n) buf = replicate (Suc n) v @ drop (base + Suc n) buf"
    by (simp add: replicate_app_Cons_same)
  finally have last: "buffer_set (int base + int n) v ?b1 =
      Inr (take base buf @ replicate (Suc n) v @ drop (base + Suc n) buf)" .
  have "for_each (\<lambda>x. buffer_set (int base + int x) v) [0 ..< Suc n] buf =
        seq (for_each (\<lambda>x. buffer_set (int base + int x) v) [0 ..< n] buf)
          (for_each (\<lambda>x. buffer_set (int base + int x) v) [n])"
    by (simp only: upt_Suc_append[OF le0] for_each_append)
  also have "\<dots> = buffer_set (int base + int n) v ?b1"
    unfolding ih by (simp split: sum.splits)
  finally show ?case using last by simp
qed

lemma rows_fill:
  "m * w \<le> length buf \<Longrightarrow>
   for_each (\<lambda>y. for_each (\<lambda>x. buffer_set (int y * int w + int x) v) [0 ..< w]) [0 ..< m] buf =
   Inr (replicate (m * w) v @ drop (m * w) buf)"
proof (induction m)
  case 0
  then show ?case by simp
next
  case (Suc m)
  let ?row = "\<lambda>y. for_each (\<lambda>x. buffer_set (int y * int w + int x) v) [0 ..< w]"
  let ?b1 = "replicate (m * w) v @ drop (m * w) buf"
  have ih: "for_each ?row [0 ..< m] buf = Inr ?b1" using Suc by simp
  have len: "m * w + w \<le> length ?b1" using Suc.prems by simp
  have "?row m ?b1 = Inr (take (m * w) ?b1 @ replicate w v @ drop (m * w + w) ?b1)"
    using row_fill[OF len, of v] by (simp add: mult.commute)
  also have "take (m * w) ?b1 @ replicate w v @ drop (m * w + w) ?b1 =
      replicate (Suc m * w) v @ drop (Suc m * w) buf"
    by (simp add: replicate_add[symmetric] add.commute)
  finally have last: "?row m ?b1 = Inr (replicate (Suc m * w) v @ drop (Suc m * w) buf)" .
  have "for_each ?row [0 ..< Suc m] buf = seq (for_each ?row [0 ..< m] buf) (for_each ?row [m])"
    by (simp only: upt_Suc_append[OF le0] for_each_append)
  also have "\<dots> = ?row m ?b1"
    unfolding ih by (simp split: sum.splits)
  finally show ?case using last by simp
qed

lemma initializeBuffer_cells:
  assumes "\<not> busy d" "row_size * unat (area_width d) \<le> length (buffer d)"
  shows "initializeBuffer d =
    Inr (d\<lparr>buffer := replicate (row_size * unat (area_width d)) (bswap16 (area_background d)) @
                 drop (row_size * unat (area_width d)) (buffer d)\<rparr>)"
proof -
  have u: "uint (area_width d) = int (unat (area_width d))" by simp
  show ?thesis
    unfolding initializeBuffer_def modify_buffer_def u
    using assms rows_fill[of row_size "unat (area_width d)" "buffer d" "bswap16 (area_background d)"]
    by simp
qed

lemma initializeBuffer_frame:
  assumes "initializeBuffer d = Inr d'"
  shows "\<not> busy d \<and> (\<exists>buf. d' = d\<lparr>buffer := buf\<rparr>)"
  using assms
  by (auto simp: initializeBuffer_def seq_Inr_iff modify_buffer_def split: if_splits sum.splits)

lemma draw_glyphs_append:
  "draw_glyphs font (xs @ ys) d = seq (draw_glyphs font xs d) (draw_glyphs font ys)"
  by (induction xs arbitrary: d) (auto split: sum.splits)

lemma draw_glyphs_Cons:
  "draw_glyphs font (c # cs) d = seq (draw_glyphs font [c] d) (draw_glyphs font cs)"
  using draw_glyphs_append[of font "[c]" cs d] by simp

lemma draw_glyph_result:
  assumes "draw_glyphs font [c] d = Inr d'" "getGlyph font c = Inr g"
  shows "\<not> busy d \<and> (\<exists>buf. d' = d\<lparr>buffer := buf, area_cursor := area_cursor d + ucast (advance g)\<rparr>)"
proof -
  let ?m = "modify_buffer d (\<lambda>buf. renderChar buf font (ucast (area_width d)) (area_cursor d) baseline c (area_foreground d))"
  from assms(1) obtain a d1 where m: "?m = Inr (a, d1)" and d': "d' = d1\<lparr>area_cursor := area_cursor d1 + a\<rparr>"
    by (auto split: sum.splits)
  from modify_buffer_Inr[OF m] obtain buf' where nb: "\<not> busy d"
    and rc: "renderChar (buffer d) font (ucast (area_width d)) (area_cursor d) baseline c (area_foreground d) = Inr (a, buf')"
    and d1: "d1 = d\<lparr>buffer := buf'\<rparr>" by blast
  have "a = ucast (advance g)" by (rule renderChar_advance[OF rc assms(2)])
  with d' d1 nb show ?thesis by auto
qed

lemma drawChar_idle:
  assumes "\<not> busy d"
  shows "drawChar spi fonts c d =
    Some (seq (if area_cursor d = 0 then initializeBuffer d else Inr d) (draw_glyphs (fontDefault fonts) [c]))"
proof -
  have e: "(\<lambda>d. seq (modify_buffer d (\<lambda>buf. renderChar buf (fontDefault fonts) (ucast (area_width d))
                  (area_cursor d) baseline c (area_foreground d)))
           (\<lambda>(adv, d). Inr (d\<lparr>area_cursor := area_cursor d + adv\<rparr>))) = draw_glyphs (fontDefault fonts) [c]"
    by (rule ext) (auto simp: seq_def split: sum.splits)
  show ?thesis
    unfolding drawChar_def await_idle_not_busy[OF assms] pseq_simps e ..
qed

lemma drawChar_after_wait:
  assumes "await_idle spi d = Some (Inr d0)"
  shows "drawChar spi fonts c d = drawChar spi fonts c d0"
proof -
  have "\<not> busy d0" using assms by (rule await_idle_idle)
  then have "await_idle spi d0 = Some (Inr d0)" by (rule await_idle_not_busy)
  with assms show ?thesis by (simp add: drawChar_def)
qed

lemma drawChars_nonzero:
  assumes font: "95 \<le> length (glyphs (fontDefault fonts))"
  shows "list_all printable cs \<Longrightarrow> \<not> busy d \<Longrightarrow> area_cursor d \<noteq> 0 \<Longrightarrow>
     unat (area_cursor d) + (\<Sum>c\<leftarrow>cs. glyph_advance (fontDefault fonts) c) < 65536 \<Longrightarrow>
     drawChars spi fonts cs d = Some (draw_glyphs (fontDefault fonts) cs d)"
proof (induction cs arbitrary: d)
  case Nil
  then show ?case by simp
next
  case (Cons c rest)
  let ?font = "fontDefault fonts"
  let ?g = "glyphs ?font ! nat (glyph_index c)"
  from Cons.prems(1) have pc: "printable c" and pr: "list_all printable rest" by simp_all
  have gg: "getGlyph ?font c = Inr ?g" by (rule getGlyph_printable[OF pc font])
  have dc: "drawChar spi fonts c d = Some (draw_glyphs ?font [c] d)"
    using drawChar_idle[OF Cons.prems(2), of spi fonts c] Cons.prems(3) by simp
  show ?case
  proof (cases "draw_glyphs ?font [c] d")
    case (Inl e)
    then show ?thesis
      unfolding drawChars.simps dc draw_glyphs_Cons[of ?font c rest] by simp
  next
    case (Inr d1)
    from draw_glyph_result[OF Inr gg] obtain buf where nb: "\<not> busy d1"
      and d1: "d1 = d\<lparr>buffer := buf, area_cursor := area_cursor d + ucast (advance ?g)\<rparr>"
      using Cons.prems(2) by auto
    have ga: "unat (ucast (advance ?g) :: uint16_t) = glyph_advance ?font c" by (rule glyph_advance_ucast)
    have "unat (area_cursor d) + unat (ucast (advance ?g) :: uint16_t) < 2 ^ LENGTH(16)"
      using Cons.prems(4) ga by simp
    then have "unat (area_cursor d + ucast (advance ?g)) = unat (area_cursor d) + unat (ucast (advance ?g) :: uint16_t)"
      by (rule unat_add_lem[THEN iffD1])
    then have cur: "unat (area_cursor d1) = unat (area_cursor d) + glyph_advance ?font c"
      unfolding d1 ga by simp
    have nz0: "unat (area_cursor d) \<noteq> 0" using Cons.prems(3) by (simp add: unat_eq_0)
    then have nz: "area_cursor d1 \<noteq> 0" using cur by (metis add_is_0 unat_0)
    have bound: "unat (area_cursor d1) + (\<Sum>c\<leftarrow>rest. glyph_advance ?font c) < 65536"
      using Cons.prems(4) cur by simp
    show ?thesis
      unfolding drawChars.simps dc draw_glyphs_Cons[of ?font c rest] Inr
      using Cons.IH[OF pr nb nz bound] by simp
  qed
qed

lemma drawChars_first:
  assumes font: "95 \<le> length (glyphs (fontDefault fonts))"
    and pr: "list_all printable (c # rest)"
    and nb: "\<not> busy d" and cur: "area_cursor d = 0"
    and pos: "0 < glyph_advance (fontDefault fonts) c"
    and bound: "(\<Sum>c\<leftarrow>c # rest. glyph_advance (fontDefault fonts) c) < 65536"
  shows "drawChars spi fonts (c # rest) d =
     Some (seq (initializeBuffer d) (draw_glyphs (fontDefault fonts) (c # rest)))"
proof -
  let ?font = "fontDefault fonts"
  let ?g = "glyphs ?font ! nat (glyph_index c)"
  from pr have pc: "printable c" and prr: "list_all printable rest" by simp_all
  have gg: "getGlyph ?font c = Inr ?g" by (rule getGlyph_printable[OF pc font])
  have dc: "drawChar spi fonts c d = Some (seq (initializeBuffer d) (draw_glyphs ?font [c]))"
    using drawChar_idle[OF nb, of spi fonts c] cur by simp
  show ?thesis
  proof (cases "initializeBuffer d")
    case (Inl e)
    then show ?thesis unfolding drawChars.simps dc by simp
  next
    case (Inr d1)
    from initializeBuffer_frame[OF Inr] obtain buf where d1: "d1 = d\<lparr>buffer := buf\<rparr>" by blast
    show ?thesis
    proof (cases "draw_glyphs ?font [c] d1")
      case Inl2: (Inl e)
      then show ?thesis
        unfolding drawChars.simps dc Inr seq_simps draw_glyphs_Cons[of ?font c rest] by simp
    next
      case Inr2: (Inr d2)
      from draw_glyph_result[OF Inr2 gg] obtain buf2 where nb1: "\<not> busy d1"
        and d2: "d2 = d1\<lparr>buffer := buf2, area_cursor := area_cursor d1 + ucast (advance ?g)\<rparr>"
        by auto
      have ga: "unat (ucast (advance ?g) :: uint16_t) = glyph_advance ?font c" by (rule glyph_advance_ucast)
      have c2: "area_cursor d2 = ucast (advance ?g)" using d2 d1 cur by simp
      then have u2: "unat (area_cursor d2) = glyph_advance ?font c" using ga by simp
      have nz: "area_cursor d2 \<noteq> 0" using u2 pos by (metis less_numeral_extra(3) unat_0)
      have nb2: "\<not> busy d2" using d2 nb1 by simp
      have b2: "unat (area_cursor d2) + (\<Sum>c\<leftarrow>rest. glyph_advance ?font c) < 65536"
        using bound u2 by simp
      show ?thesis
        unfolding drawChars.simps dc Inr seq_simps draw_glyphs_Cons[of ?font c rest] Inr2 pseq_simps
        using drawChars_nonzero[OF font prr nb2 nz b2] by simp
    qed
  qed
qed

lemma strip_trailing_down:
  "m + k \<le> 255 \<Longrightarrow> (\<forall>j<k. char_at s (int (m + j)) = Inr 0x20) \<Longrightarrow>
   strip_trailing s (of_nat (m + k)) = strip_trailing s (of_nat m)"
proof (induction k)
  case 0
  then show ?case by simp
next
  case (Suc k)
  have "uint (of_nat (m + Suc k) :: 8 word) = int (m + Suc k)"
    using Suc.prems(1) by (rule uint_of_nat_u8)
  then have "uint (of_nat (m + Suc k) :: 8 word) - 1 = int (m + k)" by simp
  then have "char_at s (uint (of_nat (m + Suc k) :: 8 word) - 1) = Inr 0x20"
    using Suc.prems(2) by simp
  then have "strip_trailing s (of_nat (m + Suc k)) = strip_trailing s (of_nat (m + Suc k) - 1)"
    by (rule strip_trailing_step)
  also have "(of_nat (m + Suc k) :: 8 word) - 1 = of_nat (m + k)" by simp
  finally show ?case using Suc by simp
qed

lemma text_length_body:
  assumes s: "string_at s (body @ replicate k 0x20)"
    and ne: "body \<noteq> []" and last: "last body \<noteq> 0x20"
    and len: "length body + k \<le> 32"
  shows "text_length s = Some (Inr (Some (of_nat (length body))))"
proof -
  let ?m = "length body"
  let ?n = "?m + k"
  let ?len = "of_nat ?n :: uint8_t"
  have sl: "strlen s = Inr ?n" using string_at_strlen[OF s] by simp
  have ul: "unat ?len = ?n" using len by (intro unat_of_nat_u8) simp
  have m1: "1 \<le> ?m" using ne by (cases body) simp_all
  have nz: "?len \<noteq> 0" using ul m1 by (metis add_is_0 not_one_le_zero unat_0)
  have cl: "(if 32 < ?len then 32 else ?len) = ?len"
    using ul len by (simp add: word_less_nat_alt)
  have spaces: "\<forall>j<k. char_at s (int (?m + j)) = Inr 0x20"
  proof (intro allI impI)
    fix j assume j: "j < k"
    from string_at_reads[of s body "replicate k 0x20" "[]"] s j
    show "char_at s (int (?m + j)) = Inr 0x20" by simp
  qed
  have down: "strip_trailing s ?len = strip_trailing s (of_nat ?m)"
    using len by (intro strip_trailing_down spaces) simp
  have um: "uint (of_nat ?m :: 8 word) = int ?m"
    using len by (intro uint_of_nat_u8) simp
  have "char_at s (int (?m - 1)) = Inr ((body @ replicate k 0x20) ! (?m - 1))"
    using m1 by (intro string_at_char[OF s]) simp
  moreover have "(body @ replicate k 0x20) ! (?m - 1) = last body"
    using ne by (simp add: nth_append last_conv_nth)
  moreover have "uint (of_nat ?m :: 8 word) - 1 = int (?m - 1)"
    unfolding um using m1 by simp
  ultimately have "char_at s (uint (of_nat ?m :: 8 word) - 1) = Inr (last body)" by simp
  then have "strip_trailing s (of_nat ?m) = Some (Inr (of_nat ?m))"
    using last by (rule strip_trailing_stop)
  with down have st: "strip_trailing s (if 32 < ?len then 32 else ?len) = Some (Inr (of_nat ?m))"
    by (simp only: cl)
  have "text_length s =
      pseq (strip_trailing s (if 32 < ?len then 32 else ?len)) (\<lambda>len. Some (Inr (Some len)))"
    unfolding text_length_def sl sum.case Let_def by (simp only: nz if_False)
  then show ?thesis by (simp only: st pseq_simps)
qed

lemma getTextWidth_prefix:
  assumes s: "string_at s (body @ rest)" and pr: "list_all printable body"
    and len: "length body \<le> 32" and font: "95 \<le> length (glyphs font)"
  shows "\<exists>w. getTextWidth s (of_nat (length body)) font = Inr (w, body) \<and>
             unat w = (\<Sum>c\<leftarrow>body. glyph_advance font c)"
proof -
  have ul: "unat (of_nat (length body) :: 8 word) = length body"
    using len by (intro unat_of_nat_u8) simp
  have rd: "\<forall>k<length body. char_at s (int (0 + k)) = Inr (body ! k)"
    using string_at_reads[of s "[]" body rest] s by simp
  have "getTextWidth s (of_nat (length body)) font =
        getTextWidth_loop s font ([0 ..< 0 + length body] @ []) 0 False []"
    by (simp add: getTextWidth_def ul)
  also have "\<dots> = getTextWidth_loop s font [] (0 + of_nat (\<Sum>c\<leftarrow>body. glyph_advance font c))
        (if body = [] then False else False) ([] @ body)"
    using len by (intro loop_printable_prefix[OF font rd pr]) simp
  finally have "getTextWidth s (of_nat (length body)) font =
      Inr (of_nat (\<Sum>c\<leftarrow>body. glyph_advance font c), body)"
    by simp
  moreover have "unat (of_nat (\<Sum>c\<leftarrow>body. glyph_advance font c) :: 16 word) = (\<Sum>c\<leftarrow>body. glyph_advance font c)"
    using len by (intro unat_sum_advance) simp
  ultimately show ?thesis by blast
qed

lemma print_body:
  assumes await: "await_idle spi d = Some (Inr d0)"
    and s: "string_at s (body @ replicate k 0x20)"
    and ne: "body \<noteq> []" and last: "last body \<noteq> 0x20"
    and len: "length body + k \<le> 32"
    and pr: "list_all printable body"
    and font: "95 \<le> length (glyphs (fontDefault fonts))"
    and fits: "(\<Sum>c\<leftarrow>body. glyph_advance (fontDefault fonts) c) \<le> unat (area_width d)"
    and left: "area_justify d = Left" and cur: "area_cursor d = 0"
  shows "print spi fonts (Some s) d =
     pseq (Some (seq (initializeBuffer d0) (\<lambda>d1.
             seq (draw_glyphs (fontDefault fonts) body d1) (\<lambda>d2. Inr (d2\<lparr>area_cursor := 0\<rparr>)))))
       (flushBuffer spi)"
proof -
  let ?font = "fontDefault fonts"
  from await_idle_result[OF await] obtain n where d0: "d0 = d\<lparr>polls := n, busy := False\<rparr>" by auto
  have aw: "area_width d0 = area_width d" and j0: "area_justify d0 = Left" and c0: "area_cursor d0 = 0"
    using d0 left cur by simp_all
  have tl: "text_length s = Some (Inr (Some (of_nat (length body))))"
    by (rule text_length_body[OF s ne last len])
  from getTextWidth_prefix[OF s pr _ font] len obtain w where
    gw: "getTextWidth s (of_nat (length body)) ?font = Inr (w, body)"
    and uw: "unat w = (\<Sum>c\<leftarrow>body. glyph_advance ?font c)" by auto
  have nlt: "\<not> area_width d0 < w" using fits uw aw by (simp add: word_less_nat_alt)
  have ff: "fit_font fonts s (of_nat (length body)) (area_width d0) = Inr (Default, w, body)"
    using gw nlt by (simp add: fit_font_def)
  have dd: "d0\<lparr>area_cursor := justify_cursor (area_justify d0) (area_width d0) w\<rparr> = d0"
    using j0 c0 by (simp add: justify_cursor_def)
  have inner: "seq (initializeBuffer d0) (\<lambda>d1.
          seq (render_text (deref fonts Default) body d1) (\<lambda>d2. Inr (d2\<lparr>area_cursor := 0\<rparr>))) =
        seq (initializeBuffer d0) (\<lambda>d1.
          seq (draw_glyphs ?font body d1) (\<lambda>d2. Inr (d2\<lparr>area_cursor := 0\<rparr>)))"
  proof (cases "initializeBuffer d0")
    case (Inl e)
    then show ?thesis by simp
  next
    case (Inr d1)
    from initializeBuffer_frame[OF Inr] obtain buf where d1: "d1 = d0\<lparr>buffer := buf\<rparr>" by blast
    have "unat (area_cursor d1) + (\<Sum>c\<leftarrow>body. glyph_advance ?font c) \<le> unat (area_width d1)"
      using d1 c0 aw fits by simp
    then have "fitting ?font (unat (area_width d1)) (unat (area_cursor d1)) body = body"
      by (rule fitting_all)
    then have "render_text ?font body d1 = draw_glyphs ?font body d1"
      using render_text_fitting[OF font pr, of d1] by simp
    then show ?thesis unfolding Inr by (simp add: deref_def)
  qed
  show ?thesis
    unfolding print_def await pseq_simps option.case tl ff seq_simps prod.case dd inner ..
qed

lemma flushBuffer_buffer:
  assumes "flushBuffer spi d = Some (Inr d')"
  shows "buffer d' = buffer d"
proof -
  from assms obtain d1 d2 d3 where a: "await_idle spi d = Some (Inr d1)"
    and b: "writeSetWindow spi (area_x d1) (word_of_int (uint (area_row d1) * int row_size))
             (area_width d1) (of_nat row_size) d1 = Some (Inr d2)"
    and c: "write_buffer spi (of_nat (unat (area_width d2) * row_size * 2)) d2 = Some (Inr d3)"
    and d': "d' = d3\<lparr>busy := True\<rparr>"
    unfolding flushBuffer_def prepareWrite_def by (auto simp: pseq_Inr_iff)
  from await_idle_result[OF a] have "buffer d1 = buffer d" by auto
  moreover from writeSetWindow_result[OF b] have "buffer d2 = buffer d1" by (auto dest: bus_only_fields(1))
  moreover from write_buffer_result[OF c] have "buffer d3 = buffer d2" by (auto dest: bus_only_fields(1))
  ultimately show ?thesis using d' by simp
qed

lemma renderChar_blank_glyph:
  assumes "getGlyph font c = Inr g" "blank g"
  shows "renderChar buf font wd x y c color = Inr (ucast (advance g), buf)"
proof -
  have "for_each (\<lambda>iy. for_each (\<lambda>ix. renderChar_pixel font wd x y color g iy ix) [0 ..< unat (width g)])
          [0 ..< unat (height g)] (offset g, 0, 0, buf) = Inr (offset g, 0, 0, buf)"
  proof (cases "height g = 0")
    case True
    then show ?thesis by simp
  next
    case False
    with assms(2) have "width g = 0" by (simp add: blank_def)
    then have "\<And>iy s. for_each (\<lambda>ix. renderChar_pixel font wd x y color g iy ix) [0 ..< unat (width g)] s = Inr s"
      by simp
    then show ?thesis by (rule for_each_noop)
  qed
  then show ?thesis using assms(1) by (simp add: renderChar_def)
qed

lemma draw_spaces_buffer:
  assumes "getGlyph font 0x20 = Inr g" "blank g"
  shows "draw_glyphs font (replicate k 0x20) d = Inr d' \<Longrightarrow> buffer d' = buffer d"
proof (induction k arbitrary: d)
  case 0
  then show ?case by simp
next
  case (Suc k)
  let ?d1 = "d\<lparr>area_cursor := area_cursor d + ucast (advance g)\<rparr>"
  from Suc.prems have nb: "\<not> busy d"
    by (auto simp: modify_buffer_def split: if_splits)
  then have "draw_glyphs font (replicate (Suc k) 0x20) d = draw_glyphs font (replicate k 0x20) ?d1"
    by (simp add: modify_buffer_def renderChar_blank_glyph[OF assms])
  with Suc.prems have "draw_glyphs font (replicate k 0x20) ?d1 = Inr d'" by simp
  from Suc.IH[OF this] show ?case by simp
qed

lemma pseq_return [simp]: "pseq m (\<lambda>x. Some (Inr x)) = m"
  by (auto simp: pseq_def split: option.splits sum.splits)

lemma drawChars_after_wait:
  assumes "await_idle spi d = Some (Inr d0)"
  shows "drawChars spi fonts (c # rest) d = drawChars spi fonts (c # rest) d0"
  by (simp add: drawChar_after_wait[OF assms])

lemma printable_space: "printable 0x20"
  by (simp add: printable_def)

lemma sum_advance_lt: "(\<Sum>c\<leftarrow>cs. glyph_advance font c) \<le> unat (w :: uint16_t) \<Longrightarrow>
    (\<Sum>c\<leftarrow>cs. glyph_advance font c) < 65536"
  using unat_lt_u16[of w] by linarith

lemma drawChars_print_same_buffer:
  assumes s: "string_at s (body @ replicate k 0x20)"
    and ne: "body \<noteq> []" and last: "last body \<noteq> 0x20"
    and len: "length body + k \<le> 32"
    and pr: "list_all printable body"
    and font: "95 \<le> length (glyphs (fontDefault fonts))"
    and blank_space: "k = 0 \<or> blank (glyphs (fontDefault fonts) ! nat (glyph_index 0x20))"
    and pos: "0 < glyph_advance (fontDefault fonts) (hd body)"
    and fits: "(\<Sum>c\<leftarrow>body @ replicate k 0x20. glyph_advance (fontDefault fonts) c) \<le> unat (area_width d)"
    and left: "area_justify d = Left" and cur: "area_cursor d = 0"
    and p: "print spi fonts (Some s) d = Some (Inr dp)"
    and c: "drawChars spi fonts (body @ replicate k 0x20) d = Some (Inr dc)"
  shows "buffer dp = buffer dc"
proof -
  let ?font = "fontDefault fonts"
  let ?sp = "replicate k (0x20 :: uint8_t)"
  from p obtain d0 where await: "await_idle spi d = Some (Inr d0)"
    unfolding print_def by (auto simp: pseq_Inr_iff)
  from await_idle_result[OF await] obtain n where d0: "d0 = d\<lparr>polls := n, busy := False\<rparr>" by auto
  have nb0: "\<not> busy d0" and c0: "area_cursor d0 = 0" using d0 cur by simp_all
  have fits_body: "(\<Sum>c\<leftarrow>body. glyph_advance ?font c) \<le> unat (area_width d)"
    using fits by simp
  note pb = print_body[OF await s ne last len pr font fits_body left cur]
  from p[unfolded pb] obtain d1 d2 where i: "initializeBuffer d0 = Inr d1"
    and g: "draw_glyphs ?font body d1 = Inr d2"
    and f: "flushBuffer spi (d2\<lparr>area_cursor := 0\<rparr>) = Some (Inr dp)"
    by (auto simp: pseq_Inr_iff seq_Inr_iff)
  have bp: "buffer dp = buffer d2" using flushBuffer_buffer[OF f] by simp
  obtain c1 rest where body: "body = c1 # rest" using ne by (cases body) auto
  have pr_all: "list_all printable (c1 # (rest @ ?sp))"
    using pr body printable_space by (auto simp: list_all_iff)
  have pos1: "0 < glyph_advance ?font c1" using pos body by simp
  have bound: "(\<Sum>c\<leftarrow>c1 # (rest @ ?sp). glyph_advance ?font c) < 65536"
    using sum_advance_lt[OF fits] body by simp
  have "drawChars spi fonts (body @ ?sp) d = drawChars spi fonts (c1 # (rest @ ?sp)) d0"
    unfolding body using drawChars_after_wait[OF await] by simp
  also have "\<dots> = Some (seq (initializeBuffer d0) (draw_glyphs ?font (c1 # (rest @ ?sp))))"
    by (rule drawChars_first[OF font pr_all nb0 c0 pos1 bound])
  also have "\<dots> = Some (draw_glyphs ?font ?sp d2)"
    using i g body draw_glyphs_append[of ?font body ?sp d1] by simp
  finally have dsp: "draw_glyphs ?font ?sp d2 = Inr dc" using c by simp
  have "buffer dc = buffer d2"
  proof (cases "k = 0")
    case True
    with dsp show ?thesis by simp
  next
    case False
    with blank_space have b: "blank (glyphs ?font ! nat (glyph_index 0x20))" by simp
    have gg: "getGlyph ?font 0x20 = Inr (glyphs ?font ! nat (glyph_index 0x20))"
      by (rule getGlyph_printable[OF printable_space font])
    from draw_spaces_buffer[OF gg b dsp] show ?thesis .
  qed
  with bp show ?thesis by simp
qed

lemma drawChar_three_print_same_buffer:
  assumes s: "string_at s [c1, c2, c3]"
    and pr: "printable c1" "printable c2" "printable c3"
    and not_spaces: "[c1, c2, c3] \<noteq> [0x20, 0x20, 0x20]"
    and font: "95 \<le> length (glyphs (fontDefault fonts))"
    and blank_space: "blank (glyphs (fontDefault fonts) ! nat (glyph_index 0x20))"
    and pos: "0 < glyph_advance (fontDefault fonts) c1"
    and fits: "glyph_advance (fontDefault fonts) c1 + glyph_advance (fontDefault fonts) c2 +
               glyph_advance (fontDefault fonts) c3 \<le> unat (area_width d)"
    and left: "area_justify d = Left" and cur: "area_cursor d = 0"
    and p: "print spi fonts (Some s) d = Some (Inr dp)"
    and c: "pseq (drawChar spi fonts c1 d) (\<lambda>d. pseq (drawChar spi fonts c2 d) (drawChar spi fonts c3)) =
            Some (Inr dc)"
  shows "buffer dp = buffer dc"
proof -
  have e0: "drawChars spi fonts [] = (\<lambda>d. Some (Inr d))" by (rule ext) simp
  have e1: "drawChars spi fonts [c3] = drawChar spi fonts c3" by (rule ext) (simp add: e0)
  have e2: "drawChars spi fonts [c2, c3] = (\<lambda>d. pseq (drawChar spi fonts c2 d) (drawChar spi fonts c3))"
    by (rule ext) (simp add: e1)
  have dc: "drawChars spi fonts [c1, c2, c3] d = Some (Inr dc)"
    using c by (simp add: e2)
  consider (a) "c3 \<noteq> 0x20" | (b) "c3 = 0x20" "c2 \<noteq> 0x20" | (c) "c3 = 0x20" "c2 = 0x20" "c1 \<noteq> 0x20"
    using not_spaces by auto
  then show ?thesis
  proof cases
    case a
    show ?thesis
    proof (rule drawChars_print_same_buffer[where body = "[c1, c2, c3]" and k = 0, OF _ _ _ _ _ font _ _ _ left cur p])
      show "string_at s ([c1, c2, c3] @ replicate 0 0x20)" using s by simp
      show "last [c1, c2, c3] \<noteq> 0x20" using a by simp
      show "list_all printable [c1, c2, c3]" using pr by simp
      show "drawChars spi fonts ([c1, c2, c3] @ replicate 0 0x20) d = Some (Inr dc)" using dc by simp
      show "(\<Sum>c\<leftarrow>[c1, c2, c3] @ replicate 0 0x20. glyph_advance (fontDefault fonts) c) \<le> unat (area_width d)"
        using fits by simp
    qed (use pos in simp_all)
  next
    case b
    show ?thesis
    proof (rule drawChars_print_same_buffer[where body = "[c1, c2]" and k = 1, OF _ _ _ _ _ font _ _ _ left cur p])
      show "string_at s ([c1, c2] @ replicate 1 0x20)" using s b by simp
      show "last [c1, c2] \<noteq> 0x20" using b by simp
      show "list_all printable [c1, c2]" using pr by simp
      show "drawChars spi fonts ([c1, c2] @ replicate 1 0x20) d = Some (Inr dc)" using dc b by simp
      show "(\<Sum>c\<leftarrow>[c1, c2] @ replicate 1 0x20. glyph_advance (fontDefault fonts) c) \<le> unat (area_width d)"
        using fits b by simp
    qed (use pos blank_space in simp_all)
  next
    case c
    show ?thesis
    proof (rule drawChars_print_same_buffer[where body = "[c1]" and k = 2, OF _ _ _ _ _ font _ _ _ left cur p])
      show "string_at s ([c1] @ replicate 2 0x20)" using s c by (simp add: numeral_2_eq_2)
      show "last [c1] \<noteq> 0x20" using c by simp
      show "list_all printable [c1]" using pr by simp
      show "drawChars spi fonts ([c1] @ replicate 2 0x20) d = Some (Inr dc)" using dc c by (simp add: numeral_2_eq_2)
      show "(\<Sum>c\<leftarrow>[c1] @ replicate 2 0x20. glyph_advance (fontDefault fonts) c) \<le> unat (area_width d)"
        using fits c by (simp add: numeral_2_eq_2)
    qed (use pos blank_space in simp_all)
  qed
qed

lemma getGlyph_ink:
  "getGlyph ink_font 0x20 = Inr demo_glyph" "getGlyph ink_font 0x41 = Inr ink_glyph"
  "getGlyph ink_font 0x42 = Inr ink_glyph"
  by (simp_all add: getGlyph_def glyph_index_def ink_font_def)

lemma bswap16_white: "bswap16 0xFFFF = 0xFFFF" "bswap16 0 = 0"
  by (simp_all add: bswap16_def)

lemma bitmaps_ink: "bitmaps ink_font = [0xC0]"
  by (simp add: ink_font_def)

lemma renderChar_ink:
  "renderChar (replicate 1800 b) ink_font 30 0 baseline 0x41 0xFFFF =
     Inr (3, (replicate 1800 b)[1350 := 0xFFFF, 1351 := 0xFFFF])"
  "renderChar ((replicate 1800 b)[1350 := 0xFFFF, 1351 := 0xFFFF]) ink_font 30 3 baseline 0x42 0xFFFF =
     Inr (3, (replicate 1800 b)[1350 := 0xFFFF, 1351 := 0xFFFF, 1353 := 0xFFFF, 1354 := 0xFFFF])"
  by (simp_all add: renderChar_def getGlyph_ink ink_glyph_def renderChar_pixel_def bitmaps_ink baseline_def
      row_size_def buffer_set_def bswap16_white Let_def upt_rec)

lemma initializeBuffer_wide:
  "initializeBuffer (wide_display\<lparr>polls := n\<rparr>) = Inr (wide_display\<lparr>polls := n, buffer := replicate 1800 0\<rparr>)"
proof -
  have "initializeBuffer (wide_display\<lparr>polls := n\<rparr>) =
    Inr (wide_display\<lparr>polls := n\<rparr>\<lparr>buffer := replicate (row_size * unat (area_width (wide_display\<lparr>polls := n\<rparr>)))
                     (bswap16 (area_background (wide_display\<lparr>polls := n\<rparr>))) @
                 drop (row_size * unat (area_width (wide_display\<lparr>polls := n\<rparr>))) (buffer (wide_display\<lparr>polls := n\<rparr>))\<rparr>)"
    by (rule initializeBuffer_cells) (simp_all add: wide_display_def demo_display_def row_size_def)
  then show ?thesis
    by (simp add: wide_display_def demo_display_def row_size_def bswap16_white)
qed

lemma draw_AB_space:
  "draw_glyphs ink_font [0x41, 0x42, 0x20] (wide_display\<lparr>buffer := replicate 1800 0\<rparr>) =
   Inr (wide_display\<lparr>buffer := (replicate 1800 0)[1350 := 0xFFFF, 1351 := 0xFFFF, 1353 := 0xFFFF, 1354 := 0xFFFF],
                    area_cursor := 16\<rparr>)"
  by (simp add: modify_buffer_def wide_display_def demo_display_def renderChar_ink
      renderChar_blank_glyph[OF getGlyph_ink(1)] blank_def demo_glyph_def)

lemma drawChars_three:
  "drawChars spi fonts [c1, c2, c3] d =
   pseq (drawChar spi fonts c1 d) (\<lambda>d. pseq (drawChar spi fonts c2 d) (drawChar spi fonts c3))"
proof -
  have e0: "drawChars spi fonts [] = (\<lambda>d. Some (Inr d))" by (rule ext) simp
  have e1: "drawChars spi fonts [c3] = drawChar spi fonts c3" by (rule ext) (simp add: e0)
  have e2: "drawChars spi fonts [c2, c3] = (\<lambda>d. pseq (drawChar spi fonts c2 d) (drawChar spi fonts c3))"
    by (rule ext) (simp add: e1)
  show ?thesis by (simp add: e2)
qed

lemma wide_display_fields:
  "\<not> busy wide_display" "area_cursor wide_display = 0" "area_justify wide_display = Left"
  "unat (area_width wide_display) = 30" "wide_display\<lparr>polls := 0\<rparr> = wide_display"
  by (simp_all add: wide_display_def demo_display_def)

lemma ink_advances:
  "glyph_advance ink_font 0x41 = 3" "glyph_advance ink_font 0x42 = 3" "glyph_advance ink_font 0x20 = 10"
  by (simp_all add: glyph_advance_def glyph_index_def ink_font_def ink_glyph_def demo_glyph_def)

lemma ink_font_size: "95 \<le> length (glyphs (fontDefault ink_fonts))"
  by (simp add: ink_fonts_def ink_font_def)

lemma drawChar_AB_space:
  "pseq (drawChar idle_bus ink_fonts 0x41 wide_display)
     (\<lambda>d. pseq (drawChar idle_bus ink_fonts 0x42 d) (drawChar idle_bus ink_fonts 0x20)) =
   Some (Inr (wide_display\<lparr>buffer := (replicate 1800 0)[1350 := 0xFFFF, 1351 := 0xFFFF, 1353 := 0xFFFF, 1354 := 0xFFFF],
                    area_cursor := 16\<rparr>))"
proof -
  have f: "fontDefault ink_fonts = ink_font" by (simp add: ink_fonts_def)
  have "drawChars idle_bus ink_fonts [0x41, 0x42, 0x20] wide_display =
      Some (seq (initializeBuffer wide_display) (draw_glyphs (fontDefault ink_fonts) [0x41, 0x42, 0x20]))"
    by (rule drawChars_first[OF ink_font_size _ wide_display_fields(1,2)])
      (simp_all add: f ink_advances printable_def)
  also have "\<dots> = Some (draw_glyphs ink_font [0x41, 0x42, 0x20] (wide_display\<lparr>buffer := replicate 1800 0\<rparr>))"
    using initializeBuffer_wide[of 0] by (simp add: wide_display_fields f)
  finally show ?thesis by (simp only: drawChars_three draw_AB_space)
qed

lemma unat_of_nat_u16: "n < 65536 \<Longrightarrow> unat (of_nat n :: uint16_t) = n"
  by (simp add: unat_of_nat)

lemma write_buffer_idle:
  assumes "unat len \<le> 2 * length (buffer d)"
  shows "write_buffer idle_bus len d = Some (Inr (d\<lparr>polls := Suc (polls d)\<rparr>))"
  using assms by (simp add: write_buffer_def await_spi_idle idle_bus_def)

lemma writeSetWindow_idle:
  "writeSetWindow idle_bus x y w h d = Some (Inr (d\<lparr>polls := polls d + 3\<rparr>))"
  by (simp add: writeSetWindow_def writeCommand_def await_spi_idle idle_bus_def)

lemma flushBuffer_idle:
  assumes "\<not> busy d" "unat (area_width d) * row_size \<le> length (buffer d)" "unat (area_width d) * row_size * 2 < 65536"
  shows "flushBuffer idle_bus d = Some (Inr (d\<lparr>polls := polls d + 4, busy := True\<rparr>))"
proof -
  let ?len = "of_nat (unat (area_width d) * row_size * 2) :: uint16_t"
  have u: "unat ?len = unat (area_width d) * row_size * 2"
    using assms(3) by (rule unat_of_nat_u16)
  let ?d1 = "d\<lparr>polls := polls d + 3\<rparr>"
  have wb: "write_buffer idle_bus (of_nat (unat (area_width ?d1) * row_size * 2)) ?d1 = Some (Inr (?d1\<lparr>polls := Suc (polls ?d1)\<rparr>))"
  proof (rule write_buffer_idle)
    have aw: "area_width ?d1 = area_width d" by simp
    have "unat (of_nat (unat (area_width ?d1) * row_size * 2) :: uint16_t) = unat (area_width d) * row_size * 2"
      unfolding aw by (rule u)
    then show "unat (of_nat (unat (area_width ?d1) * row_size * 2) :: uint16_t) \<le> 2 * length (buffer ?d1)"
      using assms(2) by simp
  qed
  show ?thesis
    unfolding flushBuffer_def prepareWrite_def await_idle_not_busy[OF assms(1)] pseq_simps
      writeSetWindow_idle wb
    by simp
qed

lemma draw_AB:
  "draw_glyphs ink_font [0x41, 0x42] (wide_display\<lparr>buffer := replicate 1800 0\<rparr>) =
   Inr (wide_display\<lparr>buffer := (replicate 1800 0)[1350 := 0xFFFF, 1351 := 0xFFFF, 1353 := 0xFFFF, 1354 := 0xFFFF],
                    area_cursor := 6\<rparr>)"
  by (simp add: modify_buffer_def wide_display_def demo_display_def renderChar_ink)

lemma initializeBuffer_wide0:
  "initializeBuffer wide_display = Inr (wide_display\<lparr>buffer := replicate 1800 0\<rparr>)"
  using initializeBuffer_wide[of 0] by (simp add: wide_display_fields)

lemma print_AB_space:
  "print idle_bus ink_fonts (Some (literal [0x41, 0x42, 0x20])) wide_display =
   Some (Inr (wide_display\<lparr>buffer := (replicate 1800 0)[1350 := 0xFFFF, 1351 := 0xFFFF, 1353 := 0xFFFF, 1354 := 0xFFFF],
                    polls := 4, busy := True\<rparr>))"
proof -
  have f: "fontDefault ink_fonts = ink_font" by (simp add: ink_fonts_def)
  let ?B = "(replicate 1800 0)[1350 := 0xFFFF, 1351 := 0xFFFF, 1353 := 0xFFFF, 1354 := 0xFFFF] :: uint16_t list"
  let ?d2 = "wide_display\<lparr>buffer := ?B, area_cursor := 6\<rparr>\<lparr>area_cursor := 0\<rparr>"
  have s: "string_at (literal [0x41, 0x42, 0x20]) ([0x41, 0x42] @ replicate 1 0x20)"
    by (simp add: string_at_def literal_def)
  have "print idle_bus ink_fonts (Some (literal [0x41, 0x42, 0x20])) wide_display =
     pseq (Some (seq (initializeBuffer wide_display) (\<lambda>d1.
             seq (draw_glyphs (fontDefault ink_fonts) [0x41, 0x42] d1) (\<lambda>d2. Inr (d2\<lparr>area_cursor := 0\<rparr>)))))
       (flushBuffer idle_bus)"
    by (rule print_body[OF await_idle_not_busy[OF wide_display_fields(1)] s _ _ _ _ ink_font_size _
          wide_display_fields(3,2)])
      (simp_all add: f ink_advances printable_def wide_display_fields)
  also have "\<dots> = flushBuffer idle_bus ?d2"
    by (simp only: f initializeBuffer_wide0 draw_AB seq_simps pseq_simps)
  also have "\<dots> = Some (Inr (?d2\<lparr>polls := polls ?d2 + 4, busy := True\<rparr>))"
    by (rule flushBuffer_idle) (simp_all add: wide_display_def demo_display_def row_size_def)
  finally show ?thesis by (simp add: wide_display_def demo_display_def)
qed

lemma blank_space_ink: "blank (glyphs (fontDefault ink_fonts) ! nat (glyph_index 0x20))"
  by (simp add: ink_fonts_def ink_font_def glyph_index_def blank_def demo_glyph_def)

lemma text_length_three_spaces:
  assumes s: "string_at s [0x20, 0x20, 0x20]" and z: "start s = 0"
  shows "text_length s = Some (Inl (StringIndex (- 1)))"
proof -
  have sl: "strlen s = Inr 3" using string_at_strlen[OF s] by simp
  have "\<forall>j<3. char_at s (int j) = Inr 0x20"
  proof (intro allI impI)
    fix j :: nat assume "j < 3"
    then have "j < length [0x20 :: uint8_t, 0x20, 0x20]" by simp
    from string_at_char[OF s this] have "char_at s (int j) = Inr ([0x20, 0x20, 0x20] ! j)" .
    moreover from \<open>j < 3\<close> have "j = 0 \<or> j = 1 \<or> j = 2" by linarith
    ultimately show "char_at s (int j) = Inr 0x20" by auto
  qed
  then have "strip_trailing s (of_nat 3) = strip_trailing s 0"
    by (intro strip_trailing_spaces) simp_all
  then have st: "strip_trailing s 3 = strip_trailing s 0" by simp
  have ch: "char_at s (- 1) = Inl (StringIndex (- 1))"
    using z by (simp add: char_at_def)
  have "strip_trailing s 0 = Some (Inl (StringIndex (- 1)))"
    by (simp only: strip_trailing_zero ch sum.case)
  with st have "strip_trailing s 3 = Some (Inl (StringIndex (- 1)))" by simp
  then show ?thesis by (simp add: text_length_def sl)
qed

lemma print_three_spaces:
  assumes s: "string_at s [0x20, 0x20, 0x20]" and z: "start s = 0"
  shows "print spi fonts (Some s) d = None \<or>
         print spi fonts (Some s) d = Some (Inl (StringIndex (- 1)))"
proof (cases "await_idle spi d")
  case None
  then show ?thesis by (simp add: print_def)
next
  case (Some r)
  from await_idle_result[OF Some] obtain n where "r = Inr (d\<lparr>polls := n, busy := False\<rparr>)" ..
  with Some show ?thesis by (simp add: print_def text_length_three_spaces[OF s z])
qed

lemma drawChar_three_spaces:
  "pseq (drawChar idle_bus ink_fonts 0x20 wide_display)
     (\<lambda>d. pseq (drawChar idle_bus ink_fonts 0x20 d) (drawChar idle_bus ink_fonts 0x20)) =
   Some (Inr (wide_display\<lparr>buffer := replicate 1800 0, area_cursor := 30\<rparr>))"
proof -
  have f: "fontDefault ink_fonts = ink_font" by (simp add: ink_fonts_def)
  have "drawChars idle_bus ink_fonts [0x20, 0x20, 0x20] wide_display =
      Some (seq (initializeBuffer wide_display) (draw_glyphs (fontDefault ink_fonts) [0x20, 0x20, 0x20]))"
    by (rule drawChars_first[OF ink_font_size _ wide_display_fields(1,2)])
      (simp_all add: f ink_advances printable_def)
  also have "\<dots> = Some (draw_glyphs ink_font [0x20, 0x20, 0x20] (wide_display\<lparr>buffer := replicate 1800 0\<rparr>))"
    by (simp only: f initializeBuffer_wide0 seq_simps)
  also have "\<dots> = Some (Inr (wide_display\<lparr>buffer := replicate 1800 0, area_cursor := 30\<rparr>))"
    by (simp add: modify_buffer_def wide_display_def demo_display_def
        renderChar_blank_glyph[OF getGlyph_ink(1)] blank_def demo_glyph_def)
  finally show ?thesis by (simp only: drawChars_three)
qed

lemma print_spaces_idle:
  "print idle_bus ink_fonts (Some (literal [0x20, 0x20, 0x20])) wide_display =
   Some (Inl (StringIndex (- 1)))"
proof -
  have "text_length (literal [0x20, 0x20, 0x20]) = Some (Inl (StringIndex (- 1)))"
    by (rule text_length_three_spaces) (simp_all add: string_at_def literal_def)
  then show ?thesis
    by (simp add: print_def await_idle_not_busy[OF wide_display_fields(1)])
qed

text \<open>
  Claim C6. For a three-character string of printable characters whose default-font advances fit
  the text area, with the cursor at 0 and \<open>Left\<close> justification: whenever \<open>print\<close> of the string
  and three calls of \<open>drawChar\<close> both return, they leave the same offscreen buffer, unless the
  string is three spaces. For three spaces at the start of their array, \<open>print\<close> strips the length
  down to 0 and reads \<open>s[-1]\<close>: it returns no display at all. The font table is taken with a blank
  space glyph and a first glyph that moves the cursor.
\<close>

theorem drawChar_three_times_vs_print:
  assumes "string_at s [c1, c2, c3]"
    and "printable c1" "printable c2" "printable c3"
    and "95 \<le> length (glyphs (fontDefault fonts))"
    and "blank (glyphs (fontDefault fonts) ! nat (glyph_index 0x20))"
    and "0 < glyph_advance (fontDefault fonts) c1"
    and "glyph_advance (fontDefault fonts) c1 + glyph_advance (fontDefault fonts) c2 +
         glyph_advance (fontDefault fonts) c3 \<le> unat (area_width d)"
    and "area_justify d = Left" and "area_cursor d = 0"
  shows "([c1, c2, c3] \<noteq> [0x20, 0x20, 0x20] \<longrightarrow>
           (\<forall>dp dc. print spi fonts (Some s) d = Some (Inr dp) \<longrightarrow>
              pseq (drawChar spi fonts c1 d)
                (\<lambda>d. pseq (drawChar spi fonts c2 d) (drawChar spi fonts c3)) = Some (Inr dc) \<longrightarrow>
              buffer dp = buffer dc)) \<and>
         ([c1, c2, c3] = [0x20, 0x20, 0x20] \<longrightarrow> start s = 0 \<longrightarrow>
            print spi fonts (Some s) d = None \<or>
            print spi fonts (Some s) d = Some (Inl (StringIndex (- 1))))"
proof (intro conjI impI allI)
  fix dp dc
  assume ne: "[c1, c2, c3] \<noteq> [0x20, 0x20, 0x20]"
    and p: "print spi fonts (Some s) d = Some (Inr dp)"
    and c: "pseq (drawChar spi fonts c1 d)
          (\<lambda>d. pseq (drawChar spi fonts c2 d) (drawChar spi fonts c3)) = Some (Inr dc)"
  show "buffer dp = buffer dc"
    by (rule drawChar_three_print_same_buffer[OF assms(1-4) ne assms(5-10) p c])
next
  assume "[c1, c2, c3] = [0x20, 0x20, 0x20]" and z: "start s = 0"
  with assms(1) have "string_at s [0x20, 0x20, 0x20]" by simp
  then show "print spi fonts (Some s) d = None \<or>
        print spi fonts (Some s) d = Some (Inl (StringIndex (- 1)))"
    using z by (rule print_three_spaces)
qed

theorem drawChar_three_times_vs_print_witness:
  "string_at (literal [0x41, 0x42, 0x20]) [0x41, 0x42, 0x20] \<and>
   printable 0x41 \<and> printable 0x42 \<and> printable 0x20 \<and>
   glyph_advance (fontDefault ink_fonts) 0x41 + glyph_advance (fontDefault ink_fonts) 0x42 +
     glyph_advance (fontDefault ink_fonts) 0x20 = 16 \<and> unat (area_width wide_display) = 30 \<and>
   print idle_bus ink_fonts (Some (literal [0x41, 0x42, 0x20])) wide_display =
     Some (Inr (wide_display\<lparr>buffer := (replicate 1800 0)[1350 := 0xFFFF, 1351 := 0xFFFF, 1353 := 0xFFFF, 1354 := 0xFFFF],
                    polls := 4, busy := True\<rparr>)) \<and>
   pseq (drawChar idle_bus ink_fonts 0x41 wide_display)
     (\<lambda>d. pseq (drawChar idle_bus ink_fonts 0x42 d) (drawChar idle_bus ink_fonts 0x20)) =
     Some (Inr (wide_display\<lparr>buffer := (replicate 1800 0)[1350 := 0xFFFF, 1351 := 0xFFFF, 1353 := 0xFFFF, 1354 := 0xFFFF],
                    area_cursor := 16\<rparr>)) \<and>
   buffer (wide_display\<lparr>buffer := (replicate 1800 0)[1350 := 0xFFFF, 1351 := 0xFFFF, 1353 := 0xFFFF, 1354 := 0xFFFF],
                    polls := 4, busy := True\<rparr>) =
   buffer (wide_display\<lparr>buffer := (replicate 1800 0)[1350 := 0xFFFF, 1351 := 0xFFFF, 1353 := 0xFFFF, 1354 := 0xFFFF],
                    area_cursor := 16\<rparr>) \<and>
   string_at (literal [0x20, 0x20, 0x20]) [0x20, 0x20, 0x20] \<and> start (literal [0x20, 0x20, 0x20]) = 0 \<and>
   print idle_bus ink_fonts (Some (literal [0x20, 0x20, 0x20])) wide_display = Some (Inl (StringIndex (- 1))) \<and>
   pseq (drawChar idle_bus ink_fonts 0x20 wide_display)
     (\<lambda>d. pseq (drawChar idle_bus ink_fonts 0x20 d) (drawChar idle_bus ink_fonts 0x20)) =
     Some (Inr (wide_display\<lparr>buffer := replicate 1800 0, area_cursor := 30\<rparr>))"
proof -
  have f: "fontDefault ink_fonts = ink_font" by (simp add: ink_fonts_def)
  have s1: "string_at (literal [0x41, 0x42, 0x20]) [0x41, 0x42, 0x20]"
    by (simp add: string_at_def literal_def)
  have s2: "string_at (literal [0x20, 0x20, 0x20]) [0x20, 0x20, 0x20]"
    by (simp add: string_at_def literal_def)
  have z: "start (literal [0x20, 0x20, 0x20]) = 0" by (simp add: literal_def)
  have pr: "printable 0x41" "printable 0x42" "printable 0x20" by (simp_all add: printable_def)
  have adv: "glyph_advance (fontDefault ink_fonts) 0x41 + glyph_advance (fontDefault ink_fonts) 0x42 +
     glyph_advance (fontDefault ink_fonts) 0x20 = 16"
    by (simp add: f ink_advances)
  have pos: "0 < glyph_advance (fontDefault ink_fonts) 0x41" by (simp add: f ink_advances)
  have fits: "glyph_advance (fontDefault ink_fonts) 0x41 + glyph_advance (fontDefault ink_fonts) 0x42 +
     glyph_advance (fontDefault ink_fonts) 0x20 \<le> unat (area_width wide_display)"
    by (simp add: adv wide_display_fields)
  have ne: "[0x41, 0x42, 0x20] \<noteq> [0x20, 0x20, 0x20 :: uint8_t]" by simp
  from drawChar_three_times_vs_print[OF s1 pr ink_font_size blank_space_ink pos fits
      wide_display_fields(3,2), of idle_bus, THEN conjunct1, rule_format, OF ne print_AB_space drawChar_AB_space]
  have same: "buffer (wide_display\<lparr>buffer := (replicate 1800 0)[1350 := 0xFFFF, 1351 := 0xFFFF, 1353 := 0xFFFF, 1354 := 0xFFFF],
                    polls := 4, busy := True\<rparr>) =
   buffer (wide_display\<lparr>buffer := (replicate 1800 0)[1350 := 0xFFFF, 1351 := 0xFFFF, 1353 := 0xFFFF, 1354 := 0xFFFF],
                    area_cursor := 16\<rparr>)" .
  show ?thesis
    by (intro conjI s1 s2 z pr adv wide_display_fields(4) print_AB_space drawChar_AB_space same
        print_spaces_idle drawChar_three_spaces)
qed

end
